theory Spec2Isabelle
  imports Complex_Main "HOL-Library.Word"
begin

unbundle bit_operations_syntax

section \<open>Data model of wireshark\_bridge.c\<close>

text \<open>
  The plugin keeps two globals, \<^verbatim>\<open>wireshark_bridge_main\<close> and
  \<^verbatim>\<open>wireshark_bridge_queue\<close>. Both are modelled as records and threaded explicitly
  through every operation. The \<^verbatim>\<open>u8\<close> flags of the source are only ever assigned 0 or 1
  and tested for being non-zero, so they are booleans here. An \<^verbatim>\<open>f64\<close> value is the real
  number it denotes, and every \<^verbatim>\<open>f64\<close> operation of the source rounds its exact result to
  the nearest binary64 number.
\<close>

type_synonym u8 = "8 word"
type_synonym u16 = "16 word"
type_synonym u32 = "32 word"
type_synonym u64 = "64 word"

record wireshark_bridge_packet_t =
  sw_if_index :: u32
  packet_data :: "u8 list"
  packet_length :: u32
  timestamp :: real
  direction :: u8

record wireshark_bridge_queue_t =
  packets :: "wireshark_bridge_packet_t list"
  should_stop :: bool
  queue_overflows :: u32

definition WIRESHARK_BRIDGE_DIRECTION_RX :: u8 where
  "WIRESHARK_BRIDGE_DIRECTION_RX = 0"

definition WIRESHARK_BRIDGE_DIRECTION_TX :: u8 where
  "WIRESHARK_BRIDGE_DIRECTION_TX = 1"

definition WIRESHARK_BRIDGE_MAX_QUEUE_SIZE :: nat where
  "WIRESHARK_BRIDGE_MAX_QUEUE_SIZE = 10000"

definition WIRESHARK_BRIDGE_PACKET_HEADER_SIZE :: nat where
  "WIRESHARK_BRIDGE_PACKET_HEADER_SIZE = 17"

definition WIRESHARK_BRIDGE_MAX_DATAGRAM_SIZE :: nat where
  "WIRESHARK_BRIDGE_MAX_DATAGRAM_SIZE = 65507"

record wireshark_bridge_interface_t =
  if_sw_if_index :: u32
  is_enabled :: bool
  packets_sent_rx :: u64
  bytes_sent_rx :: u64
  packets_sent_tx :: u64
  bytes_sent_tx :: u64

text \<open>
  \<^verbatim>\<open>bridge_addr\<close> is a union of \<^verbatim>\<open>sockaddr_in\<close> and \<^verbatim>\<open>sockaddr_un\<close>: the model
  keeps the member that was written last. \<^verbatim>\<open>Addr_unset\<close> is the zeroed global before any
  enable call.
\<close>

datatype sockaddr =
    Addr_unset
  | Inet_addr (sin_port: u16) (sin_addr: u32)
  | Unix_addr (sun_path: string)

record wireshark_bridge_main_t =
  interfaces :: "wireshark_bridge_interface_t list"
  interface_index_by_sw_if_index :: "u32 \<rightharpoonup> nat"
  bridge_socket :: int
  bridge_addr :: sockaddr
  bridge_connected :: bool
  use_unix_socket :: bool
  socket_path :: string
  sender_thread_running :: bool

text \<open>
  The whole state: the two globals, and two logs of what the operating system was asked
  to do (every descriptor passed to \<^verbatim>\<open>close\<close>, and every buffer the encoder finished,
  with what became of it).
\<close>

datatype flush_outcome = Sent_ok | Send_failed | Not_attempted

record bridge_state =
  wbm :: wireshark_bridge_main_t
  queue :: wireshark_bridge_queue_t
  closed_fds :: "int list"
  flushed :: "(u8 list \<times> flush_outcome) list"

section \<open>Interface registry\<close>

definition wireshark_bridge_find_interface ::
  "wireshark_bridge_main_t \<Rightarrow> u32 \<Rightarrow> nat option" where
  "wireshark_bridge_find_interface m ifx =
     (case interface_index_by_sw_if_index m ifx of
        None \<Rightarrow> None
      | Some index \<Rightarrow> if index \<ge> length (interfaces m) then None else Some index)"

definition new_wbi :: "u32 \<Rightarrow> wireshark_bridge_interface_t" where
  "new_wbi ifx = \<lparr> if_sw_if_index = ifx, is_enabled = False, packets_sent_rx = 0,
     bytes_sent_rx = 0, packets_sent_tx = 0, bytes_sent_tx = 0 \<rparr>"

definition wireshark_bridge_add_interface ::
  "wireshark_bridge_main_t \<Rightarrow> u32 \<Rightarrow> wireshark_bridge_main_t \<times> nat" where
  "wireshark_bridge_add_interface m ifx =
     (case wireshark_bridge_find_interface m ifx of
        Some index \<Rightarrow> (m, index)
      | None \<Rightarrow>
          (let index = length (interfaces m)
           in (m\<lparr> interfaces := interfaces m @ [new_wbi ifx],
                   interface_index_by_sw_if_index :=
                     (interface_index_by_sw_if_index m)(ifx \<mapsto> index) \<rparr>, index)))"

text \<open>An interface that the fast path and the encoder let through: found and enabled.\<close>

definition enabled_index :: "wireshark_bridge_main_t \<Rightarrow> u32 \<Rightarrow> nat option" where
  "enabled_index m ifx =
     (case wireshark_bridge_find_interface m ifx of
        None \<Rightarrow> None
      | Some index \<Rightarrow> if is_enabled (interfaces m ! index) then Some index else None)"

section \<open>Fast path: \<^verbatim>\<open>wireshark_bridge_send_packet\<close>\<close>

text \<open>
  The caller's buffer is the list \<open>data\<close>; the rx and tx nodes pass the current data of
  a buffer together with its \<^verbatim>\<open>current_length\<close>, so \<open>data\<close> holds at least
  \<open>len\<close> bytes and the copy is its first \<open>len\<close> bytes. The function returns nothing;
  the mutex and the condition variable have no effect on the sequential state.
\<close>

definition wireshark_bridge_send_packet ::
  "bridge_state \<Rightarrow> u32 \<Rightarrow> u8 list \<Rightarrow> u32 \<Rightarrow> real \<Rightarrow> u8 \<Rightarrow> bridge_state" where
  "wireshark_bridge_send_packet st ifx data len ts dir =
     (if \<not> bridge_connected (wbm st) then st
      else case wireshark_bridge_find_interface (wbm st) ifx of
        None \<Rightarrow> st
      | Some index \<Rightarrow>
          if \<not> is_enabled (interfaces (wbm st) ! index) then st
          else if length (packets (queue st)) \<ge> WIRESHARK_BRIDGE_MAX_QUEUE_SIZE
          then st\<lparr> queue := (queue st)\<lparr> queue_overflows := queue_overflows (queue st) + 1 \<rparr> \<rparr>
          else
            (let packet_copy = take (unat len) data;
                 packet = \<lparr> sw_if_index = ifx, packet_data = packet_copy,
                            packet_length = len, timestamp = ts, direction = dir \<rparr>
             in st\<lparr> queue := (queue st)\<lparr> packets := packets (queue st) @ [packet] \<rparr> \<rparr>))"

text \<open>One capture attempt: the five arguments of the call.\<close>

type_synonym capture = "u32 \<times> u8 list \<times> u32 \<times> real \<times> u8"

fun capture_packet :: "capture \<Rightarrow> wireshark_bridge_packet_t" where
  "capture_packet (ifx, data, len, ts, dir) =
     \<lparr> sw_if_index = ifx, packet_data = take (unat len) data,
       packet_length = len, timestamp = ts, direction = dir \<rparr>"

fun capture_if :: "capture \<Rightarrow> u32" where
  "capture_if (ifx, data, len, ts, dir) = ifx"

fun send_capture :: "bridge_state \<Rightarrow> capture \<Rightarrow> bridge_state" where
  "send_capture st (ifx, data, len, ts, dir) =
     wireshark_bridge_send_packet st ifx data len ts dir"

text \<open>A run of capture attempts with no drain in between.\<close>

fun capture_all :: "bridge_state \<Rightarrow> capture list \<Rightarrow> bridge_state" where
  "capture_all st [] = st"
| "capture_all st (c # cs) = capture_all (send_capture st c) cs"

section \<open>Frame encoder and batching: \<^verbatim>\<open>wireshark_bridge_send_packets\<close>\<close>

text \<open>
  Writing past the 65507 bytes of the batch buffer, and reading more bytes of a record's
  payload vector than it holds, are undefined in C. The model stops with an error value
  at the first such access.
\<close>

datatype encoder_error = Buffer_overrun | Payload_overread

text \<open>
  Binary64 arithmetic, as IEEE 754 defines it for round-to-nearest, ties to even: the
  exact result is rounded to the nearest multiple of the unit in the last place of its
  binade. A binade \<open>[2^e, 2^(e+1))\<close> has 2^52 equal steps; below 2^-1022 the steps
  stay those of the smallest normal binade. Overflow to infinity, at 2^1024, is out of
  reach of the values below.
\<close>

definition round_half_even :: "real \<Rightarrow> int" where
  "round_half_even r =
     (let f = \<lfloor>r\<rfloor>
      in if r - of_int f < 1 / 2 then f
         else if r - of_int f > 1 / 2 then f + 1
         else if even f then f else f + 1)"

definition f64_exponent :: "real \<Rightarrow> int" where
  "f64_exponent x = max \<lfloor>log 2 \<bar>x\<bar>\<rfloor> (- 1022)"

definition f64_ulp :: "real \<Rightarrow> real" where
  "f64_ulp x = 2 powi (f64_exponent x - 52)"

definition f64_round :: "real \<Rightarrow> real" where
  "f64_round x =
     (if x = 0 then 0
      else sgn x * of_int (round_half_even (\<bar>x\<bar> / f64_ulp x)) * f64_ulp x)"

text \<open>The real numbers that are binary64 values.\<close>

definition is_f64 :: "real \<Rightarrow> bool" where
  "is_f64 x \<longleftrightarrow> f64_round x = x"

text \<open>
  The cast \<^verbatim>\<open>(u32) x\<close> of an \<^verbatim>\<open>f64\<close> drops the fraction. C leaves the cast of a value
  outside the range of \<^verbatim>\<open>u32\<close> undefined; the model reduces it modulo 2^32, and what is
  proved of the two timestamp fields is proved for timestamps from 0 up to, not
  including, 2^32, as \<^verbatim>\<open>vlib_time_now\<close> returns them. The two header values of line
  325 and 326: \<^verbatim>\<open>(u32) p->timestamp\<close>, and
  \<^verbatim>\<open>(u32) ((p->timestamp - timestamp_sec) * 1000000)\<close>, where the seconds are converted
  back to \<^verbatim>\<open>f64\<close> exactly and the difference and the product are each rounded.
\<close>

definition f64_to_u32 :: "real \<Rightarrow> u32" where
  "f64_to_u32 x = word_of_int (if 0 \<le> x then \<lfloor>x\<rfloor> else \<lceil>x\<rceil>)"

definition timestamp_sec :: "real \<Rightarrow> u32" where
  "timestamp_sec t = f64_to_u32 t"

definition timestamp_usec :: "real \<Rightarrow> u32" where
  "timestamp_usec t =
     f64_to_u32 (f64_round (f64_round (t - real (unat (timestamp_sec t))) * 1000000))"

text \<open>
  Four stores \<^verbatim>\<open>buffer[buffer_offset++] = (w >> k) & 0xFF\<close>, for k = 24, 16, 8, 0. The
  model keeps of the batch buffer the part \<^verbatim>\<open>buffer[0 .. buffer_offset)\<close>, the only part
  \<^verbatim>\<open>sendto\<close> reads, so a store at \<^verbatim>\<open>buffer_offset\<close> appends a byte.
\<close>

definition put_u32 :: "u32 \<Rightarrow> u8 list" where
  "put_u32 w = [ucast (drop_bit 24 w AND 0xFF), ucast (drop_bit 16 w AND 0xFF),
                ucast (drop_bit 8 w AND 0xFF), ucast (w AND 0xFF)]"

definition packet_header :: "wireshark_bridge_packet_t \<Rightarrow> u8 list" where
  "packet_header p =
     put_u32 (sw_if_index p) @ put_u32 (timestamp_sec (timestamp p))
     @ put_u32 (timestamp_usec (timestamp p)) @ put_u32 (packet_length p) @ [direction p]"

text \<open>
  The send block, which the source repeats inside the loop and after it. Both of its
  branches (Unix and IPv4 peer address) call \<^verbatim>\<open>sendto\<close> on the first \<^verbatim>\<open>buffer_offset\<close>
  bytes and handle a failure alike. \<open>sendto_ok k\<close> says whether the call for the
  \<open>k\<close>-th finished buffer succeeds. A non-empty buffer that is given up without a call,
  because the bridge is not connected, is logged as \<open>Not_attempted\<close>.
\<close>

definition send_buffer :: "(nat \<Rightarrow> bool) \<Rightarrow> bridge_state \<Rightarrow> u8 list \<Rightarrow> u32 \<Rightarrow> bridge_state" where
  "send_buffer sendto_ok st buffer buffer_offset =
     (if buffer_offset > 0 \<and> bridge_connected (wbm st) then
        (if sendto_ok (length (flushed st))
         then st\<lparr> flushed := flushed st @ [(take (unat buffer_offset) buffer, Sent_ok)] \<rparr>
         else st\<lparr> wbm := (wbm st)\<lparr> bridge_connected := False \<rparr>,
                  closed_fds := closed_fds st @ [bridge_socket (wbm st)],
                  flushed := flushed st @ [(take (unat buffer_offset) buffer, Send_failed)] \<rparr>)
      else if buffer_offset > 0
      then st\<lparr> flushed := flushed st @ [(take (unat buffer_offset) buffer, Not_attempted)] \<rparr>
      else st)"

definition update_statistics ::
  "bridge_state \<Rightarrow> nat \<Rightarrow> wireshark_bridge_packet_t \<Rightarrow> bridge_state" where
  "update_statistics st index p =
     (let wbi = interfaces (wbm st) ! index;
          wbi' = (if direction p = WIRESHARK_BRIDGE_DIRECTION_RX
                  then wbi\<lparr> packets_sent_rx := packets_sent_rx wbi + 1,
                            bytes_sent_rx := bytes_sent_rx wbi + ucast (packet_length p) \<rparr>
                  else wbi\<lparr> packets_sent_tx := packets_sent_tx wbi + 1,
                            bytes_sent_tx := bytes_sent_tx wbi + ucast (packet_length p) \<rparr>)
      in st\<lparr> wbm := (wbm st)\<lparr> interfaces := (interfaces (wbm st))[index := wbi'] \<rparr> \<rparr>)"

text \<open>The \<^verbatim>\<open>for\<close> loop over the drained records, with the three locals that change.\<close>

fun send_packets_loop ::
  "(nat \<Rightarrow> bool) \<Rightarrow> wireshark_bridge_packet_t list \<Rightarrow> bridge_state \<Rightarrow> u8 list \<Rightarrow> u32
     \<Rightarrow> encoder_error + (bridge_state \<times> u8 list \<times> u32)" where
  "send_packets_loop sendto_ok [] st buffer buffer_offset = Inr (st, buffer, buffer_offset)"
| "send_packets_loop sendto_ok (p # ps) st buffer buffer_offset =
     (case wireshark_bridge_find_interface (wbm st) (sw_if_index p) of
        None \<Rightarrow> send_packets_loop sendto_ok ps st buffer buffer_offset
      | Some index \<Rightarrow>
          if \<not> is_enabled (interfaces (wbm st) ! index)
          then send_packets_loop sendto_ok ps st buffer buffer_offset
          else
            (case (if buffer_offset + 17 + packet_length p > 65507
                   then (send_buffer sendto_ok st buffer buffer_offset, [], 0)
                   else (st, buffer, buffer_offset)) of
               (st1, buffer1, offset1) \<Rightarrow>
                 if unat offset1 + WIRESHARK_BRIDGE_PACKET_HEADER_SIZE + unat (packet_length p)
                      > WIRESHARK_BRIDGE_MAX_DATAGRAM_SIZE
                 then Inl Buffer_overrun
                 else if length (packet_data p) < unat (packet_length p)
                 then Inl Payload_overread
                 else send_packets_loop sendto_ok ps
                        (update_statistics st1 index p)
                        (buffer1 @ packet_header p @ take (unat (packet_length p)) (packet_data p))
                        (offset1 + 17 + packet_length p)))"

definition wireshark_bridge_send_packets ::
  "(nat \<Rightarrow> bool) \<Rightarrow> bridge_state \<Rightarrow> wireshark_bridge_packet_t list
     \<Rightarrow> encoder_error + bridge_state" where
  "wireshark_bridge_send_packets sendto_ok st pkts =
     (case send_packets_loop sendto_ok pkts st [] 0 of
        Inl e \<Rightarrow> Inl e
      | Inr (st', buffer, buffer_offset) \<Rightarrow> Inr (send_buffer sendto_ok st' buffer buffer_offset))"

text \<open>
  One pass of the sender thread's loop body, from the wake-up on: leave when asked to
  stop, otherwise take the whole queue, encode and send it when connected, and free it.
\<close>

definition sender_thread_iteration ::
  "(nat \<Rightarrow> bool) \<Rightarrow> bridge_state \<Rightarrow> encoder_error + bridge_state" where
  "sender_thread_iteration sendto_ok st =
     (if should_stop (queue st) then Inr st
      else
        (let pkts = packets (queue st);
             st1 = st\<lparr> queue := (queue st)\<lparr> packets := [] \<rparr> \<rparr>
         in if length pkts > 0 \<and> bridge_connected (wbm st1)
            then wireshark_bridge_send_packets sendto_ok st1 pkts
            else Inr st1))"

text \<open>
  The reference reading of the wire format: a big-endian field is the number its bytes
  spell in base 256, and a frame is the 17-byte header followed by the payload.
\<close>

definition be_value :: "u8 list \<Rightarrow> nat" where
  "be_value bs = foldl (\<lambda>acc b. acc * 256 + unat b) 0 bs"

text \<open>What one record contributes to the byte stream, as the loop writes it.\<close>

definition packet_frame :: "wireshark_bridge_packet_t \<Rightarrow> u8 list" where
  "packet_frame p = packet_header p @ take (unat (packet_length p)) (packet_data p)"

definition fits_datagram :: "wireshark_bridge_packet_t \<Rightarrow> bool" where
  "fits_datagram p \<longleftrightarrow>
     WIRESHARK_BRIDGE_PACKET_HEADER_SIZE + unat (packet_length p) \<le> WIRESHARK_BRIDGE_MAX_DATAGRAM_SIZE"

definition well_formed :: "wireshark_bridge_packet_t \<Rightarrow> bool" where
  "well_formed p \<longleftrightarrow> length (packet_data p) = unat (packet_length p)"

definition relayed :: "wireshark_bridge_main_t \<Rightarrow> wireshark_bridge_packet_t \<Rightarrow> bool" where
  "relayed m p \<longleftrightarrow> enabled_index m (sw_if_index p) \<noteq> None"

section \<open>Administrative operations\<close>

text \<open>
  What the operating system and the C library answer during one call: whether
  \<^verbatim>\<open>strdup\<close> returns a copy, the value \<^verbatim>\<open>socket\<close> returns, what \<^verbatim>\<open>atoi\<close> makes of the
  text after the colon, the address \<^verbatim>\<open>inet_pton\<close> parses (\<open>None\<close> when it returns 0 or
  less), and whether \<^verbatim>\<open>pthread_create\<close> returns 0. Each handler makes each of these calls
  at most once.
\<close>

record syscalls =
  strdup_ok :: bool
  socket_fd :: int
  atoi :: "string \<Rightarrow> int"
  inet_pton :: "string \<Rightarrow> u32 option"
  pthread_create_ok :: bool

text \<open>
  \<open>RV_OK\<close> is the return value 0; the other values are the non-zero codes of
  \<^verbatim>\<open>vnet/api_errno.h\<close>.
\<close>

datatype api_retval =
    RV_OK
  | VNET_API_ERROR_INVALID_VALUE
  | VNET_API_ERROR_SYSCALL_ERROR_1
  | VNET_API_ERROR_SYSCALL_ERROR_3
  | VNET_API_ERROR_NO_SUCH_ENTRY

definition close_socket :: "bridge_state \<Rightarrow> bridge_state" where
  "close_socket st = st\<lparr> closed_fds := closed_fds st @ [bridge_socket (wbm st)] \<rparr>"

definition close_existing_socket :: "bridge_state \<Rightarrow> bridge_state" where
  "close_existing_socket st = (if bridge_socket (wbm st) > 0 then close_socket st else st)"

definition init_packet_queue :: "bridge_state \<Rightarrow> bridge_state" where
  "init_packet_queue st =
     st\<lparr> queue := (queue st)\<lparr> packets := [], should_stop := False, queue_overflows := 0 \<rparr> \<rparr>"

definition is_unix_path :: "string \<Rightarrow> bool" where
  "is_unix_path bridge_address =
     (case bridge_address of [] \<Rightarrow> False | c # cs \<Rightarrow> c = CHR ''/'')"

definition ip_address_of :: "string \<Rightarrow> string" where
  "ip_address_of bridge_address = takeWhile (\<lambda>c. c \<noteq> CHR '':'') bridge_address"

definition port_text_of :: "string \<Rightarrow> string" where
  "port_text_of bridge_address = tl (dropWhile (\<lambda>c. c \<noteq> CHR '':'') bridge_address)"

text \<open>
  The tail shared by both enable paths: look the interface up, add it when it is unknown,
  and set its flag. \<^verbatim>\<open>wireshark_bridge_add_interface\<close> never returns \<^verbatim>\<open>NULL\<close>, so the
  \<^verbatim>\<open>NO_SUCH_ENTRY\<close> branch is never taken. The calls that switch the feature nodes on and
  off belong to the forwarding framework and leave this state alone.
\<close>

definition enable_capture :: "bridge_state \<Rightarrow> u32 \<Rightarrow> bridge_state" where
  "enable_capture st ifx =
     (case (case wireshark_bridge_find_interface (wbm st) ifx of
              Some index \<Rightarrow> (wbm st, index)
            | None \<Rightarrow> wireshark_bridge_add_interface (wbm st) ifx) of
        (m, index) \<Rightarrow>
          st\<lparr> wbm := m\<lparr> interfaces :=
                 (interfaces m)[index := (interfaces m ! index)\<lparr> is_enabled := True \<rparr>] \<rparr> \<rparr>)"

definition vl_api_wireshark_bridge_enable_t_handler ::
  "syscalls \<Rightarrow> bridge_state \<Rightarrow> u32 \<Rightarrow> string \<Rightarrow> api_retval \<times> bridge_state" where
  "vl_api_wireshark_bridge_enable_t_handler env st ifx bridge_address =
     (if \<not> strdup_ok env then (VNET_API_ERROR_INVALID_VALUE, st)
      else if is_unix_path bridge_address then
        (let st1 = st\<lparr> wbm := (wbm st)\<lparr> use_unix_socket := True \<rparr> \<rparr>
         in if length bridge_address \<ge> 108 then (VNET_API_ERROR_INVALID_VALUE, st1)
            else
              (let st2 = st1\<lparr> wbm := (wbm st1)\<lparr> socket_path := take 107 bridge_address \<rparr> \<rparr>
               in if \<not> bridge_connected (wbm st2) then
                    (let st3 = close_existing_socket st2;
                         st4 = st3\<lparr> wbm := (wbm st3)\<lparr> bridge_socket := socket_fd env \<rparr> \<rparr>
                     in if socket_fd env < 0 then (VNET_API_ERROR_SYSCALL_ERROR_1, st4)
                        else
                          (let st5 = st4\<lparr> wbm := (wbm st4)\<lparr>
                                 bridge_addr := Unix_addr (take 107 (socket_path (wbm st4))),
                                 bridge_connected := True \<rparr> \<rparr>
                           in if \<not> sender_thread_running (wbm st5) then
                                (let st6 = init_packet_queue st5
                                 in if \<not> pthread_create_ok env then
                                      (let st7 = close_socket st6
                                       in (VNET_API_ERROR_SYSCALL_ERROR_3,
                                           st7\<lparr> wbm := (wbm st7)\<lparr> bridge_connected := False \<rparr> \<rparr>))
                                    else
                                      (RV_OK, enable_capture
                                         (st6\<lparr> wbm := (wbm st6)\<lparr> sender_thread_running := True \<rparr> \<rparr>)
                                         ifx))
                              else (RV_OK, enable_capture st5 ifx)))
                  else (RV_OK, enable_capture st2 ifx)))
      else
        (let st1 = st\<lparr> wbm := (wbm st)\<lparr> use_unix_socket := False \<rparr> \<rparr>
         in if CHR '':'' \<notin> set bridge_address then (VNET_API_ERROR_INVALID_VALUE, st1)
            else
              (let ip_address = ip_address_of bridge_address;
                   port = atoi env (port_text_of bridge_address)
               in if port \<le> 0 \<or> port > 65535 then (VNET_API_ERROR_INVALID_VALUE, st1)
                  else if \<not> bridge_connected (wbm st1) then
                    (let st2 = close_existing_socket st1;
                         st3 = st2\<lparr> wbm := (wbm st2)\<lparr> bridge_socket := socket_fd env \<rparr> \<rparr>
                     in if socket_fd env < 0 then (VNET_API_ERROR_SYSCALL_ERROR_1, st3)
                        else
                          (let st4 = st3\<lparr> wbm := (wbm st3)\<lparr>
                                 bridge_connected := True, use_unix_socket := False,
                                 bridge_addr := Inet_addr (word_of_int port) 0 \<rparr> \<rparr>
                           in case inet_pton env ip_address of
                                None \<Rightarrow> (VNET_API_ERROR_INVALID_VALUE, close_socket st4)
                              | Some a \<Rightarrow>
                                  (RV_OK, enable_capture
                                     (st4\<lparr> wbm := (wbm st4)\<lparr>
                                        bridge_addr := Inet_addr (word_of_int port) a \<rparr> \<rparr>) ifx)))
                  else (RV_OK, enable_capture st1 ifx))))"

text \<open>
  The loop of the disable handlers: clear the flag of the first entry whose id matches.
\<close>

fun disable_first ::
  "u32 \<Rightarrow> wireshark_bridge_interface_t list \<Rightarrow> wireshark_bridge_interface_t list" where
  "disable_first ifx [] = []"
| "disable_first ifx (w # ws) =
     (if if_sw_if_index w = ifx then w\<lparr> is_enabled := False \<rparr> # ws
      else w # disable_first ifx ws)"

text \<open>
  \<^verbatim>\<open>pthread_join\<close> returns once the sender thread has seen \<^verbatim>\<open>should_stop\<close> and left its
  loop; what the thread still sends before that is a drain of its own.
\<close>

definition vl_api_wireshark_bridge_disable_t_handler ::
  "bridge_state \<Rightarrow> u32 \<Rightarrow> api_retval \<times> bridge_state" where
  "vl_api_wireshark_bridge_disable_t_handler st ifx =
     (let st1 = st\<lparr> wbm := (wbm st)\<lparr> interfaces := disable_first ifx (interfaces (wbm st)) \<rparr> \<rparr>;
          all_disabled = list_all (\<lambda>w. \<not> is_enabled w) (interfaces (wbm st1))
      in if all_disabled \<and> bridge_connected (wbm st1) then
           (let st2 = (if sender_thread_running (wbm st1)
                       then st1\<lparr> queue := (queue st1)\<lparr> should_stop := True \<rparr>,
                                 wbm := (wbm st1)\<lparr> sender_thread_running := False \<rparr> \<rparr>
                       else st1);
                st3 = close_socket st2
            in (RV_OK, st3\<lparr> wbm := (wbm st3)\<lparr> bridge_connected := False \<rparr> \<rparr>))
         else (RV_OK, st1))"

text \<open>
  The command-line handlers, from the point where the arguments have been parsed. They
  return an error message, or nothing (\<open>None\<close>) where the source returns 0.
\<close>

definition start_sender_thread :: "syscalls \<Rightarrow> bridge_state \<Rightarrow> bool \<times> bridge_state" where
  "start_sender_thread env st =
     (if \<not> sender_thread_running (wbm st) then
        (let st1 = init_packet_queue st
         in if \<not> pthread_create_ok env then
              (let st2 = close_socket st1
               in (False, st2\<lparr> wbm := (wbm st2)\<lparr> bridge_connected := False \<rparr> \<rparr>))
            else (True, st1\<lparr> wbm := (wbm st1)\<lparr> sender_thread_running := True \<rparr> \<rparr>))
      else (True, st))"

definition configure_transport_cli ::
  "syscalls \<Rightarrow> bridge_state \<Rightarrow> string \<Rightarrow> (string \<times> bridge_state) + bridge_state" where
  "configure_transport_cli env st bridge_address =
     (if is_unix_path bridge_address then
        (let st1 = st\<lparr> wbm := (wbm st)\<lparr> use_unix_socket := True \<rparr> \<rparr>
         in if length bridge_address \<ge> 108 then Inl (''Unix socket path too long'', st1)
            else
              (let st2 = st1\<lparr> wbm := (wbm st1)\<lparr> socket_path := take 107 bridge_address \<rparr> \<rparr>;
                   st3 = close_existing_socket st2;
                   st4 = st3\<lparr> wbm := (wbm st3)\<lparr> bridge_socket := socket_fd env \<rparr> \<rparr>
               in if socket_fd env < 0 then Inl (''Failed to create socket'', st4)
                  else
                    (let st5 = st4\<lparr> wbm := (wbm st4)\<lparr>
                           bridge_addr := Unix_addr (take 107 (socket_path (wbm st4))),
                           bridge_connected := True \<rparr> \<rparr>
                     in case start_sender_thread env st5 of
                          (False, st6) \<Rightarrow> Inl (''Failed to create sender thread'', st6)
                        | (True, st6) \<Rightarrow> Inr st6)))
      else
        (let st1 = st\<lparr> wbm := (wbm st)\<lparr> use_unix_socket := False \<rparr> \<rparr>
         in if CHR '':'' \<notin> set bridge_address
            then Inl (''Invalid bridge address format, expected IP:PORT'', st1)
            else
              (let ip_address = ip_address_of bridge_address;
                   port = atoi env (port_text_of bridge_address)
               in if port \<le> 0 \<or> port > 65535 then Inl (''Invalid port number'', st1)
                  else
                    (let st2 = close_existing_socket st1;
                         st3 = st2\<lparr> wbm := (wbm st2)\<lparr> bridge_socket := socket_fd env \<rparr> \<rparr>
                     in if socket_fd env < 0 then Inl (''Failed to create socket'', st3)
                        else
                          (let st4 = st3\<lparr> wbm := (wbm st3)\<lparr>
                                 bridge_connected := True, use_unix_socket := False,
                                 bridge_addr := Inet_addr (word_of_int port) 0 \<rparr> \<rparr>
                           in case inet_pton env ip_address of
                                None \<Rightarrow>
                                  (let st5 = close_socket st4
                                   in Inl (''Invalid IP address'',
                                           st5\<lparr> wbm := (wbm st5)\<lparr> bridge_connected := False \<rparr> \<rparr>))
                              | Some a \<Rightarrow>
                                  Inr (st4\<lparr> wbm := (wbm st4)\<lparr>
                                         bridge_addr := Inet_addr (word_of_int port) a \<rparr> \<rparr>))))))"

definition wireshark_bridge_enable_command_fn ::
  "syscalls \<Rightarrow> bridge_state \<Rightarrow> u32 \<Rightarrow> string option \<Rightarrow> string option \<times> bridge_state" where
  "wireshark_bridge_enable_command_fn env st ifx address_arg =
     (if ifx = - 1 then (Some ''Interface not specified'', st)
      else case address_arg of
        None \<Rightarrow> (Some ''Bridge address not specified'', st)
      | Some bridge_address \<Rightarrow>
          if \<not> strdup_ok env then (Some ''Memory allocation failed'', st)
          else
            (case configure_transport_cli env st bridge_address of
               Inl (msg, st') \<Rightarrow> (Some msg, st')
             | Inr st' \<Rightarrow>
                 (case start_sender_thread env st' of
                    (False, st'') \<Rightarrow> (Some ''Failed to create sender thread'', st'')
                  | (True, st'') \<Rightarrow>
                      (Some ''Wireshark bridge enabled for interface'',
                       enable_capture st'' ifx))))"

definition wireshark_bridge_disable_command_fn ::
  "bridge_state \<Rightarrow> u32 \<Rightarrow> string option \<times> bridge_state" where
  "wireshark_bridge_disable_command_fn st ifx =
     (if ifx = - 1 then (Some ''Interface not specified'', st)
      else
        (let found = list_ex (\<lambda>w. if_sw_if_index w = ifx) (interfaces (wbm st));
             st1 = st\<lparr> wbm := (wbm st)\<lparr> interfaces := disable_first ifx (interfaces (wbm st)) \<rparr> \<rparr>
         in if \<not> found then (Some ''Interface not found in bridge'', st1)
            else (None, st1)))"

definition wireshark_bridge_exit :: "bridge_state \<Rightarrow> bridge_state" where
  "wireshark_bridge_exit st =
     (let st1 = (if sender_thread_running (wbm st)
                 then st\<lparr> queue := (queue st)\<lparr> should_stop := True \<rparr>,
                          wbm := (wbm st)\<lparr> sender_thread_running := False \<rparr> \<rparr>
                 else st);
          st2 = (if bridge_socket (wbm st1) > 0
                 then (let st' = close_socket st1
                       in st'\<lparr> wbm := (wbm st')\<lparr> bridge_socket := - 1,
                                                  bridge_connected := False \<rparr> \<rparr>)
                 else st1)
      in st2\<lparr> wbm := (wbm st2)\<lparr> interfaces := [],
                                   interface_index_by_sw_if_index := Map.empty \<rparr> \<rparr>)"

text \<open>The operations of the system, and runs of them.\<close>

datatype operation =
    Capture capture
  | Api_enable syscalls u32 string
  | Cli_enable syscalls u32 "string option"
  | Api_disable u32
  | Cli_disable u32
  | Drain "nat \<Rightarrow> bool"
  | Shutdown

fun step :: "operation \<Rightarrow> bridge_state \<Rightarrow> encoder_error + bridge_state" where
  "step (Capture c) st = Inr (send_capture st c)"
| "step (Api_enable env ifx a) st = Inr (snd (vl_api_wireshark_bridge_enable_t_handler env st ifx a))"
| "step (Cli_enable env ifx a) st = Inr (snd (wireshark_bridge_enable_command_fn env st ifx a))"
| "step (Api_disable ifx) st = Inr (snd (vl_api_wireshark_bridge_disable_t_handler st ifx))"
| "step (Cli_disable ifx) st = Inr (snd (wireshark_bridge_disable_command_fn st ifx))"
| "step (Drain sendto_ok) st = sender_thread_iteration sendto_ok st"
| "step Shutdown st = Inr (wireshark_bridge_exit st)"

fun run :: "operation list \<Rightarrow> bridge_state \<Rightarrow> encoder_error + bridge_state" where
  "run [] st = Inr st"
| "run (op # ops) st = (case step op st of Inl e \<Rightarrow> Inl e | Inr st' \<Rightarrow> run ops st')"

text \<open>
  The enable calls that reach a block which initialises the packet queue for a new sender
  thread (lines 683 to 686, 1070 to 1072 and 1142 to 1144). The handler of the binary API
  has such a block in its Unix-path branch only, inside the test for a transport that is
  not connected, after the socket has been created. The command-line handler reaches one
  after every endpoint it has accepted and every socket it could create. Either block is
  guarded by the test that the sender thread is not running.
\<close>

fun reaches_queue_init :: "operation \<Rightarrow> bridge_state \<Rightarrow> bool" where
  "reaches_queue_init (Api_enable env ifx a) st =
     (strdup_ok env \<and> is_unix_path a \<and> length a < 108 \<and> \<not> bridge_connected (wbm st)
      \<and> 0 \<le> socket_fd env \<and> \<not> sender_thread_running (wbm st))"
| "reaches_queue_init (Cli_enable env ifx address_arg) st =
     (case address_arg of
        None \<Rightarrow> False
      | Some a \<Rightarrow>
          ifx \<noteq> - 1 \<and> strdup_ok env \<and> 0 \<le> socket_fd env \<and> \<not> sender_thread_running (wbm st)
          \<and> (if is_unix_path a then length a < 108
              else CHR '':'' \<in> set a
                 \<and> 0 < atoi env (port_text_of a) \<and> atoi env (port_text_of a) \<le> 65535
                 \<and> inet_pton env (ip_address_of a) \<noteq> None))"
| "reaches_queue_init op st = False"

text \<open>
  The wire format as the specification tabulates it: four big-endian 32-bit fields, the
  direction byte, then the payload.
\<close>

definition be32 :: "nat \<Rightarrow> u8 list" where
  "be32 n = [of_nat (n div 16777216 mod 256), of_nat (n div 65536 mod 256),
             of_nat (n div 256 mod 256), of_nat (n mod 256)]"

definition wire_frame :: "nat \<Rightarrow> nat \<Rightarrow> nat \<Rightarrow> nat \<Rightarrow> u8 \<Rightarrow> u8 list \<Rightarrow> u8 list" where
  "wire_frame interface_id sec usec payload_length dir payload =
     be32 interface_id @ be32 sec @ be32 usec @ be32 payload_length @ [dir] @ payload"

text \<open>
  What the two timestamp fields stand for: the whole seconds of a timestamp \<open>t\<close> are
  \<open>\<lfloor>t\<rfloor>\<close>, and its fraction, in microseconds, is the real number below. A timestamp
  the encoder can cast is a binary64 value from 0 up to, not including, 2^32.
\<close>

definition fractional_microseconds :: "real \<Rightarrow> real" where
  "fractional_microseconds t = (t - of_int \<lfloor>t\<rfloor>) * 1000000"

definition valid_timestamp :: "wireshark_bridge_packet_t \<Rightarrow> bool" where
  "valid_timestamp p \<longleftrightarrow> is_f64 (timestamp p) \<and> 0 \<le> timestamp p \<and> timestamp p < 2 ^ 32"

text \<open>The records that count for slot \<open>i\<close> of the registry, in one direction.\<close>

definition counted ::
  "wireshark_bridge_main_t \<Rightarrow> nat \<Rightarrow> bool \<Rightarrow> wireshark_bridge_packet_t list
     \<Rightarrow> wireshark_bridge_packet_t list" where
  "counted m i rx ps =
     filter (\<lambda>p. enabled_index m (sw_if_index p) = Some i
                \<and> (direction p = WIRESHARK_BRIDGE_DIRECTION_RX) = rx) ps"

definition total_bytes :: "wireshark_bridge_packet_t list \<Rightarrow> u64" where
  "total_bytes ps = sum_list (map (\<lambda>p. ucast (packet_length p)) ps)"

text \<open>A registry entry with the records of two lists added to its counters.\<close>

definition add_stats ::
  "wireshark_bridge_interface_t \<Rightarrow> wireshark_bridge_packet_t list
     \<Rightarrow> wireshark_bridge_packet_t list \<Rightarrow> wireshark_bridge_interface_t" where
  "add_stats w rx tx =
     w\<lparr> packets_sent_rx := packets_sent_rx w + of_nat (length rx),
        bytes_sent_rx := bytes_sent_rx w + total_bytes rx,
        packets_sent_tx := packets_sent_tx w + of_nat (length tx),
        bytes_sent_tx := bytes_sent_tx w + total_bytes tx \<rparr>"

section \<open>Concrete states used in the examples\<close>

definition wbm_init :: wireshark_bridge_main_t where
  "wbm_init = \<lparr> interfaces = [], interface_index_by_sw_if_index = Map.empty,
     bridge_socket = -1, bridge_addr = Addr_unset, bridge_connected = False,
     use_unix_socket = False, socket_path = [], sender_thread_running = False \<rparr>"

definition queue_init :: wireshark_bridge_queue_t where
  "queue_init = \<lparr> packets = [], should_stop = False, queue_overflows = 0 \<rparr>"

text \<open>The state \<^verbatim>\<open>wireshark_bridge_init\<close> leaves behind.\<close>

definition wireshark_bridge_init :: bridge_state where
  "wireshark_bridge_init = \<lparr> wbm = wbm_init, queue = queue_init, closed_fds = [], flushed = [] \<rparr>"

text \<open>
  Interface 5 registered and enabled, transport connected to an IPv4 peer on descriptor 7,
  sender thread running: the state the command-line enable leaves behind.
\<close>

definition st_connected :: bridge_state where
  "st_connected = wireshark_bridge_init\<lparr> wbm := wbm_init\<lparr>
     interfaces := [(new_wbi 5)\<lparr> is_enabled := True \<rparr>],
     interface_index_by_sw_if_index := [5 \<mapsto> 0],
     bridge_socket := 7, bridge_addr := Inet_addr 9999 0x7F000001,
     bridge_connected := True, sender_thread_running := True \<rparr> \<rparr>"

text \<open>A four-byte packet seen on interface 5 in the receive direction at time 1.5 s.\<close>

definition capture_example :: capture where
  "capture_example = (5, [0xDE, 0xAD, 0xBE, 0xEF], 4, 1.5, WIRESHARK_BRIDGE_DIRECTION_RX)"

definition pkt_example :: wireshark_bridge_packet_t where
  "pkt_example = \<lparr> sw_if_index = 5, packet_data = [0xDE, 0xAD, 0xBE, 0xEF],
     packet_length = 4, timestamp = 1.5, direction = WIRESHARK_BRIDGE_DIRECTION_RX \<rparr>"

text \<open>
  The connected state after one capture and a drain whose send fails: interface 5 is still
  enabled, and the failed send has marked the bridge disconnected.
\<close>

definition st_disconnected :: bridge_state where
  "st_disconnected = projr (run [Capture capture_example, Drain (\<lambda>k. False)] st_connected)"

fun decimal_value :: "int \<Rightarrow> string \<Rightarrow> int" where
  "decimal_value acc [] = acc"
| "decimal_value acc (c # cs) =
     (if 48 \<le> (of_char c :: nat) \<and> (of_char c :: nat) \<le> 57
      then decimal_value (acc * 10 + (int (of_char c) - 48)) cs else acc)"

text \<open>
  Answers of the system used in the examples: descriptor 8 from \<^verbatim>\<open>socket\<close>, the decimal
  value of a digit string from \<^verbatim>\<open>atoi\<close>, and an \<^verbatim>\<open>inet_pton\<close> that knows the loopback
  address only.
\<close>

definition libc_example :: syscalls where
  "libc_example = \<lparr> strdup_ok = True, socket_fd = 8, atoi = decimal_value 0,
     inet_pton = (\<lambda>s. if s = ''127.0.0.1'' then Some 0x7F000001 else None),
     pthread_create_ok = True \<rparr>"

text \<open>Interface 5 switched off from the command line, which leaves the transport up.\<close>

definition st_idle :: bridge_state where
  "st_idle = snd (wireshark_bridge_disable_command_fn st_connected 5)"

text \<open>A record of 65500 payload bytes: with its header it is 65517 bytes long.\<close>

definition pkt_oversized :: wireshark_bridge_packet_t where
  "pkt_oversized = \<lparr> sw_if_index = 5, packet_data = replicate 65500 0,
     packet_length = 65500, timestamp = 1.5, direction = WIRESHARK_BRIDGE_DIRECTION_RX \<rparr>"

text \<open>
  A run from the initial state: interface 5 enabled on a Unix socket, then 10000 captures
  that fill the queue, or 10001 captures followed by a disable call.
\<close>

definition st_enabled :: bridge_state where
  "st_enabled = snd (vl_api_wireshark_bridge_enable_t_handler libc_example wireshark_bridge_init 5
                       ''/tmp/ws.sock'')"

definition st_full :: bridge_state where
  "st_full = capture_all st_enabled (replicate 10000 capture_example)"

definition st_overflowed :: bridge_state where
  "st_overflowed =
     snd (vl_api_wireshark_bridge_disable_t_handler
            (capture_all st_enabled (replicate 10001 capture_example)) 5)"

section \<open>Lemmas on the fast path\<close>

lemmas example_defs = st_connected_def wbm_init_def wireshark_bridge_init_def queue_init_def
  new_wbi_def libc_example_def

lemmas handler_defs = vl_api_wireshark_bridge_enable_t_handler_def Let_def
  close_existing_socket_def close_socket_def init_packet_queue_def is_unix_path_def
  ip_address_of_def port_text_of_def

lemma send_capture_wbm [simp]: "wbm (send_capture st c) = wbm st"
  by (cases c) (simp add: wireshark_bridge_send_packet_def Let_def split: option.splits)

lemma capture_all_wbm [simp]: "wbm (capture_all st cs) = wbm st"
  by (induction cs arbitrary: st) simp_all

lemma capture_packet_well_formed:
  "unat len \<le> length data \<Longrightarrow> well_formed (capture_packet (ifx, data, len, ts, dir))"
  by (simp add: well_formed_def)

lemma send_capture_accepts:
  assumes "bridge_connected (wbm st)" and "enabled_index (wbm st) (capture_if c) \<noteq> None"
    and "length (packets (queue st)) < WIRESHARK_BRIDGE_MAX_QUEUE_SIZE"
  shows "queue (send_capture st c) = (queue st)\<lparr> packets := packets (queue st) @ [capture_packet c] \<rparr>"
  using assms
  by (cases c)
     (auto simp: wireshark_bridge_send_packet_def enabled_index_def Let_def
           split: option.splits if_splits)

lemma send_capture_rejects:
  assumes "bridge_connected (wbm st)" and "enabled_index (wbm st) (capture_if c) \<noteq> None"
    and "length (packets (queue st)) \<ge> WIRESHARK_BRIDGE_MAX_QUEUE_SIZE"
  shows "queue (send_capture st c) = (queue st)\<lparr> queue_overflows := queue_overflows (queue st) + 1 \<rparr>"
  using assms
  by (cases c)
     (auto simp: wireshark_bridge_send_packet_def enabled_index_def Let_def
           split: option.splits if_splits)

lemma capture_all_queue:
  assumes "bridge_connected (wbm st)"
    and "\<forall>c \<in> set cs. enabled_index (wbm st) (capture_if c) \<noteq> None"
    and "length (packets (queue st)) \<le> WIRESHARK_BRIDGE_MAX_QUEUE_SIZE"
  shows "queue (capture_all st cs) = (queue st)\<lparr>
           packets := packets (queue st)
             @ map capture_packet (take (WIRESHARK_BRIDGE_MAX_QUEUE_SIZE - length (packets (queue st))) cs),
           queue_overflows := queue_overflows (queue st)
             + of_nat (length cs - (WIRESHARK_BRIDGE_MAX_QUEUE_SIZE - length (packets (queue st)))) \<rparr>"
  using assms
proof (induction cs arbitrary: st)
  case Nil
  then show ?case by simp
next
  case (Cons c cs)
  let ?st = "send_capture st c"
  have en: "enabled_index (wbm st) (capture_if c) \<noteq> None"
    using Cons.prems(2) by simp
  show ?case
  proof (cases "length (packets (queue st)) < WIRESHARK_BRIDGE_MAX_QUEUE_SIZE")
    case True
    have q: "queue ?st = (queue st)\<lparr> packets := packets (queue st) @ [capture_packet c] \<rparr>"
      by (rule send_capture_accepts [OF Cons.prems(1) en True])
    have len: "length (packets (queue ?st)) = Suc (length (packets (queue st)))"
      by (simp add: q)
    have ih: "queue (capture_all ?st cs) = (queue ?st)\<lparr>
           packets := packets (queue ?st)
             @ map capture_packet (take (WIRESHARK_BRIDGE_MAX_QUEUE_SIZE - length (packets (queue ?st))) cs),
           queue_overflows := queue_overflows (queue ?st)
             + of_nat (length cs - (WIRESHARK_BRIDGE_MAX_QUEUE_SIZE - length (packets (queue ?st)))) \<rparr>"
      using Cons.prems True by (intro Cons.IH) (simp_all add: len)
    obtain k where k: "WIRESHARK_BRIDGE_MAX_QUEUE_SIZE - length (packets (queue st)) = Suc k"
      using True by (metis Suc_diff_Suc diff_zero zero_less_diff)
    have k': "WIRESHARK_BRIDGE_MAX_QUEUE_SIZE - Suc (length (packets (queue st))) = k"
      using k by simp
    show ?thesis
      by (simp add: ih len k k') (simp add: q)
  next
    case False
    then have full: "length (packets (queue st)) = WIRESHARK_BRIDGE_MAX_QUEUE_SIZE"
      using Cons.prems(3) by simp
    have q: "queue ?st = (queue st)\<lparr> queue_overflows := queue_overflows (queue st) + 1 \<rparr>"
      by (rule send_capture_rejects [OF Cons.prems(1) en]) (simp add: full)
    have ih: "queue (capture_all ?st cs) = (queue ?st)\<lparr>
           packets := packets (queue ?st)
             @ map capture_packet (take (WIRESHARK_BRIDGE_MAX_QUEUE_SIZE - length (packets (queue ?st))) cs),
           queue_overflows := queue_overflows (queue ?st)
             + of_nat (length cs - (WIRESHARK_BRIDGE_MAX_QUEUE_SIZE - length (packets (queue ?st)))) \<rparr>"
      using Cons.prems by (intro Cons.IH) (simp_all add: q full)
    show ?thesis
      by (simp add: ih full) (simp add: q full)
  qed
qed

section \<open>Lemmas on binary64 rounding and the timestamp fields\<close>

lemma round_half_even_of_int [simp]: "round_half_even (of_int m) = m"
  by (simp add: round_half_even_def)

lemma round_half_even_ge: "of_int m \<le> r \<Longrightarrow> m \<le> round_half_even r"
proof -
  assume "of_int m \<le> r"
  then have "m \<le> \<lfloor>r\<rfloor>" by (simp add: le_floor_iff)
  then show ?thesis by (auto simp: round_half_even_def Let_def)
qed

lemma round_half_even_le: "r \<le> of_int m \<Longrightarrow> round_half_even r \<le> m"
proof -
  assume a: "r \<le> of_int m"
  show ?thesis
  proof (cases "r = of_int m")
    case True
    then show ?thesis by simp
  next
    case False
    then have "r < of_int m" using a by simp
    then have "\<lfloor>r\<rfloor> < m" by (simp add: floor_less_iff)
    then show ?thesis by (auto simp: round_half_even_def Let_def)
  qed
qed

lemma binade_bounds:
  assumes "0 < x"
  shows "2 powi \<lfloor>log 2 x\<rfloor> \<le> x" and "x < 2 powi (\<lfloor>log 2 x\<rfloor> + 1)"
proof -
  define k where "k = \<lfloor>log 2 x\<rfloor>"
  have "2 powr (real_of_int k) \<le> x \<and> x < 2 powr (real_of_int k + 1)"
    using floor_log_eq_powr_iff [of x 2 k] assms by (simp add: k_def)
  moreover have "2 powr (real_of_int k) = (2::real) powi k"
    by (rule powr_real_of_int') simp_all
  moreover have "2 powr (real_of_int (k + 1)) = (2::real) powi (k + 1)"
    by (rule powr_real_of_int') simp_all
  ultimately show "2 powi \<lfloor>log 2 x\<rfloor> \<le> x" and "x < 2 powi (\<lfloor>log 2 x\<rfloor> + 1)"
    by (simp_all add: k_def)
qed

lemma binade_less:
  assumes "0 < x" and "x < 2 powi k"
  shows "\<lfloor>log 2 x\<rfloor> < k"
proof (rule ccontr)
  assume "\<not> \<lfloor>log 2 x\<rfloor> < k"
  then have "(2::real) powi k \<le> 2 powi \<lfloor>log 2 x\<rfloor>"
    by (intro power_int_increasing) simp_all
  then show False
    using binade_bounds(1) [OF assms(1)] assms(2) by simp
qed

lemma binade_mono: "0 < x \<Longrightarrow> x \<le> y \<Longrightarrow> \<lfloor>log 2 x\<rfloor> \<le> \<lfloor>log 2 y\<rfloor>"
  by (intro floor_mono log_mono) simp_all

lemma f64_exponent_mono:
  "0 < x \<Longrightarrow> x \<le> y \<Longrightarrow> f64_exponent x \<le> f64_exponent y"
  using binade_mono [of x y] unfolding f64_exponent_def
  by (intro max.mono) simp_all

lemma f64_exponent_less:
  assumes "0 < x" and "x < 2 powi k" and "- 1022 < k"
  shows "f64_exponent x < k"
  using binade_less [OF assms(1,2)] assms(1,3) by (simp add: f64_exponent_def)

lemma f64_ulp_pos [simp]: "0 < f64_ulp x"
  by (simp add: f64_ulp_def zero_less_power_int)

text \<open>A positive multiple of a power of two that is no finer than the unit in the last place.\<close>

lemma f64_round_grid:
  assumes "0 < x" and "x = of_int m * 2 powi k" and "f64_exponent x - 52 \<le> k"
  shows "f64_round x = x"
proof -
  define e where "e = f64_exponent x - 52"
  define j where "j = k - e"
  have j: "0 \<le> j" using assms(3) by (simp add: j_def e_def)
  have u: "f64_ulp x = 2 powi e"
    by (simp add: f64_ulp_def e_def)
  have "(2::real) powi j = 2 powi k / 2 powi e"
    unfolding j_def by (rule power_int_diff) simp
  then have "x / 2 powi e = of_int m * 2 powi j"
    by (simp add: assms(2))
  also have "\<dots> = of_int (m * 2 ^ nat j)"
    using j by (simp add: power_int_nonneg_exp)
  finally have q: "x / f64_ulp x = of_int (m * 2 ^ nat j)"
    by (simp add: u)
  have a: "\<bar>x\<bar> = x" and s: "sgn x = 1" and n: "x \<noteq> 0"
    using assms(1) by simp_all
  have "f64_round x = of_int (round_half_even (x / f64_ulp x)) * f64_ulp x"
    by (simp add: f64_round_def a s n)
  also have "\<dots> = (x / f64_ulp x) * f64_ulp x"
    unfolding q round_half_even_of_int ..
  also have "\<dots> = x"
  proof -
    have "f64_ulp x \<noteq> 0"
      using f64_ulp_pos [of x] by linarith
    then show ?thesis by simp
  qed
  finally show ?thesis .
qed

lemma f64_round_of_int:
  assumes "0 \<le> n" and "n < 2 ^ 53"
  shows "f64_round (of_int n) = of_int n"
proof (cases "n = 0")
  case True
  then show ?thesis by (simp add: f64_round_def)
next
  case False
  then have pos: "0 < (of_int n :: real)" using assms(1) by simp
  have "(of_int n :: real) < 2 powi 53"
    using assms(2) by (metis of_int_less_numeral_power_cancel_iff power_int_numeral)
  then have "f64_exponent (of_int n) < 53"
    using f64_exponent_less [OF pos, of 53] by simp
  then show ?thesis
    using f64_round_grid [OF pos, of n 0] by simp
qed


text \<open>Rounding stays between two consecutive integers below 2^52.\<close>

lemma f64_round_bracket:
  assumes "0 \<le> n" and "n + 1 < 2 ^ 52" and "of_int n \<le> y" and "y \<le> of_int (n + 1)"
  shows "of_int n \<le> f64_round y" and "f64_round y \<le> of_int (n + 1)"
proof -
  have both: "of_int n \<le> f64_round y \<and> f64_round y \<le> of_int (n + 1)"
  proof (cases "y = 0")
    case True
    then show ?thesis
      using assms(1,3) by (simp add: f64_round_def)
  next
    case False
    then have pos: "0 < y" using assms(1,3) by simp
    define e where "e = f64_exponent y - 52"
    define j where "j = - e"
    have "(of_int (n + 1) :: real) < 2 powi 52"
      using assms(2) by (metis of_int_less_numeral_power_cancel_iff power_int_numeral)
    then have "y < 2 powi 52"
      using assms(4) by simp
    then have "f64_exponent y < 52"
      using f64_exponent_less [OF pos, of 52] by simp
    then have j: "0 < j" by (simp add: j_def e_def)
    have u: "f64_ulp y = 2 powi e"
      by (simp add: f64_ulp_def e_def)
    have inv: "1 / (2::real) powi e = 2 ^ nat j"
      using j unfolding j_def by (simp add: power_int_minus_divide [symmetric] power_int_nonneg_exp)
    have up: "0 < (2::real) powi e"
      by (simp add: zero_less_power_int)
    have dv: "c / 2 powi e = c * 2 ^ nat j" for c :: real
      using inv by (simp add: divide_inverse)
    have lo: "of_int (n * 2 ^ nat j) \<le> y / f64_ulp y"
      using assms(3) by (simp add: u dv)
    have hi: "y / f64_ulp y \<le> of_int ((n + 1) * 2 ^ nat j)"
      using assms(4) by (simp add: u dv)
    have r: "f64_round y = of_int (round_half_even (y / f64_ulp y)) * 2 powi e"
      using pos by (simp add: f64_round_def u)
    have bk: "of_int (c * 2 ^ nat j) * 2 powi e = (of_int c :: real)" for c :: int
      using inv up by (simp add: field_simps)
    have "of_int (n * 2 ^ nat j) * 2 powi e \<le> f64_round y"
      unfolding r using round_half_even_ge [OF lo] up by (simp del: of_int_mult of_int_power)
    moreover have "f64_round y \<le> of_int ((n + 1) * 2 ^ nat j) * 2 powi e"
      unfolding r using round_half_even_le [OF hi] up by (simp del: of_int_mult of_int_power of_int_add)
    ultimately show ?thesis
      unfolding bk by simp
  qed
  show "of_int n \<le> f64_round y" and "f64_round y \<le> of_int (n + 1)"
    using both by simp_all
qed


lemma is_f64_grid:
  assumes "is_f64 t" and "0 < t"
  shows "\<exists>m. t = of_int m * 2 powi (f64_exponent t - 52)"
proof -
  have "f64_round t = of_int (round_half_even (t / f64_ulp t)) * f64_ulp t"
    using assms(2) by (simp add: f64_round_def)
  then have "t = of_int (round_half_even (t / f64_ulp t)) * 2 powi (f64_exponent t - 52)"
    using assms(1) by (simp add: is_f64_def f64_ulp_def)
  then show ?thesis ..
qed

text \<open>Taking the integer part off a binary64 number below 2^52 is exact.\<close>

lemma f64_round_fraction:
  assumes "is_f64 t" and "0 \<le> t" and "t < 2 ^ 52"
  shows "f64_round (t - of_int \<lfloor>t\<rfloor>) = t - of_int \<lfloor>t\<rfloor>"
proof (cases "t - of_int \<lfloor>t\<rfloor> = 0")
  case True
  then show ?thesis by (simp add: f64_round_def)
next
  case False
  define d where "d = t - of_int \<lfloor>t\<rfloor>"
  have d: "0 < d" "d \<le> t"
    using False assms(2) by (simp_all add: d_def) linarith
  then have pos: "0 < t" by simp
  define e where "e = f64_exponent t - 52"
  define j where "j = - e"
  have "t < 2 powi 52"
    using assms(3) by simp
  then have "f64_exponent t < 52"
    using f64_exponent_less [OF pos, of 52] by simp
  then have j: "0 < j" by (simp add: j_def e_def)
  obtain m where m: "t = of_int m * 2 powi e"
    using is_f64_grid [OF assms(1) pos] unfolding e_def by blast
  have "(2::real) ^ nat j * 2 powi e = 1"
    using j unfolding j_def
    by (metis add.inverse_inverse less_le power_int_minus power_int_nonneg_exp
        right_inverse power_int_eq_0_iff zero_neq_numeral)
  then have "of_int (\<lfloor>t\<rfloor> * 2 ^ nat j) * 2 powi e = (of_int \<lfloor>t\<rfloor> :: real)"
    by (simp add: mult.assoc)
  then have "d = of_int (m - \<lfloor>t\<rfloor> * 2 ^ nat j) * 2 powi e"
    unfolding d_def by (subst m) (simp add: algebra_simps)
  moreover have "f64_exponent d - 52 \<le> e"
    using f64_exponent_mono [OF d] by (simp add: e_def)
  ultimately show ?thesis
    using f64_round_grid [OF d(1), of "m - \<lfloor>t\<rfloor> * 2 ^ nat j" e] by (simp add: d_def)
qed

lemma unat_f64_to_u32:
  assumes "0 \<le> x" and "x < 2 ^ 32"
  shows "unat (f64_to_u32 x) = nat \<lfloor>x\<rfloor>"
proof -
  have "0 \<le> \<lfloor>x\<rfloor>" "\<lfloor>x\<rfloor> < 2 ^ 32"
    using assms by (simp_all add: floor_less_iff)
  then show ?thesis
    using assms(1) by (simp add: f64_to_u32_def unat_eq_nat_uint take_bit_int_eq_self uint_word_of_int_eq)
qed

lemma timestamp_fields:
  assumes "is_f64 t" and "0 \<le> t" and "t < 2 ^ 32"
  shows "unat (timestamp_sec t) = nat \<lfloor>t\<rfloor>"
    and "\<lfloor>fractional_microseconds t\<rfloor> \<le> int (unat (timestamp_usec t))"
    and "int (unat (timestamp_usec t)) \<le> \<lceil>fractional_microseconds t\<rceil>"
proof -
  show sec: "unat (timestamp_sec t) = nat \<lfloor>t\<rfloor>"
    unfolding timestamp_sec_def by (rule unat_f64_to_u32 [OF assms(2,3)])
  define y where "y = fractional_microseconds t"
  define n where "n = \<lfloor>y\<rfloor>"
  have fl: "0 \<le> \<lfloor>t\<rfloor>" using assms(2) by simp
  have "t < 2 ^ 52" using assms(3) by simp
  then have d: "f64_round (t - of_int \<lfloor>t\<rfloor>) = t - of_int \<lfloor>t\<rfloor>"
    by (rule f64_round_fraction [OF assms(1,2)])
  have s: "real (unat (timestamp_sec t)) = of_int \<lfloor>t\<rfloor>"
    using fl by (simp add: sec)
  have u: "timestamp_usec t = f64_to_u32 (f64_round y)"
    unfolding timestamp_usec_def s d y_def fractional_microseconds_def ..
  have y: "0 \<le> y" "y < 1000000"
    unfolding y_def fractional_microseconds_def by simp_all linarith
  have n: "0 \<le> n" "n + 1 < 2 ^ 52" "of_int n \<le> y" "y \<le> of_int (n + 1)"
    using y unfolding n_def by (simp_all add: floor_less_iff) (linarith+)?
  have lo: "of_int n \<le> f64_round y" and hi: "f64_round y \<le> of_int (n + 1)"
    using f64_round_bracket [OF n] by simp_all
  have nb: "(of_int n :: real) \<le> 999999" "0 \<le> (of_int n :: real)"
  proof -
    have "n < 1000000" using y(2) unfolding n_def by (simp add: floor_less_iff)
    then have "n \<le> 999999" by simp
    then show "(of_int n :: real) \<le> 999999" by (simp only: of_int_le_numeral_iff)
    show "0 \<le> (of_int n :: real)" using n(1) by simp
  qed
  have r: "0 \<le> f64_round y" "f64_round y < 2 ^ 32"
    using lo hi nb by simp_all
  have v: "int (unat (timestamp_usec t)) = \<lfloor>f64_round y\<rfloor>"
    unfolding u unat_f64_to_u32 [OF r] using r(1) by simp
  show "\<lfloor>fractional_microseconds t\<rfloor> \<le> int (unat (timestamp_usec t))"
    unfolding v y_def [symmetric] n_def [symmetric] using lo by (simp add: le_floor_iff)
  show "int (unat (timestamp_usec t)) \<le> \<lceil>fractional_microseconds t\<rceil>"
  proof (cases "y = of_int n")
    case True
    have "f64_round (of_int n) = of_int n"
      using n(1,2) by (intro f64_round_of_int) simp_all
    then show ?thesis
      unfolding v y_def [symmetric] by (simp add: True)
  next
    case False
    then have "\<lceil>y\<rceil> = n + 1"
      using n(3,4) unfolding n_def by (simp add: ceiling_altdef)
    moreover have "\<lfloor>f64_round y\<rfloor> \<le> n + 1"
      using hi by (simp add: floor_le_iff)
    ultimately show ?thesis
      unfolding v y_def [symmetric] by simp
  qed
qed


lemma f64_round_in_binade:
  assumes "2 powi e \<le> y" and "y < 2 powi (e + 1)" and "- 1022 \<le> e"
  shows "f64_round y = of_int (round_half_even (y / 2 powi (e - 52))) * 2 powi (e - 52)"
proof -
  have pos: "0 < y"
    using assms(1) zero_less_power_int [of "2::real" e] by linarith
  have "2 powr (real_of_int e) = (2::real) powi e"
    by (rule powr_real_of_int') simp_all
  moreover have "2 powr (real_of_int (e + 1)) = (2::real) powi (e + 1)"
    by (rule powr_real_of_int') simp_all
  ultimately have "\<lfloor>log 2 y\<rfloor> = e"
    using floor_log_eq_powr_iff [of y 2 e] pos assms(1,2) by simp
  then have "f64_exponent y = e"
    using pos assms(3) by (simp add: f64_exponent_def)
  then show ?thesis
    using pos by (simp add: f64_round_def f64_ulp_def)
qed

lemma is_f64_dyadic:
  assumes "0 < m" and "m < 2 ^ 53" and "- 1074 \<le> k"
  shows "is_f64 (of_int m * 2 powi k)"
proof -
  let ?x = "of_int m * (2::real) powi k"
  have pos: "0 < ?x"
    using assms(1) by (simp add: zero_less_power_int)
  have "(of_int m :: real) < 2 powi 53"
    using assms(2) by (metis of_int_less_numeral_power_cancel_iff power_int_numeral)
  then have "?x < 2 powi 53 * 2 powi k"
    by (simp add: zero_less_power_int)
  also have "\<dots> = 2 powi (53 + k)"
    by (simp add: power_int_add)
  finally have "f64_exponent ?x < 53 + k"
    using f64_exponent_less [OF pos, of "53 + k"] assms(3) by simp
  then show ?thesis
    unfolding is_f64_def using f64_round_grid [OF pos refl] by simp
qed

lemma is_f64_example: "is_f64 1.5"
  using is_f64_dyadic [of 3 "- 1"] by simp

lemma timestamp_example: "timestamp_sec 1.5 = 1" "timestamp_usec 1.5 = 500000"
proof -
  show s: "timestamp_sec 1.5 = 1"
    by (simp add: timestamp_sec_def f64_to_u32_def)
  have "is_f64 (1 / 2)"
    using is_f64_dyadic [of 1 "- 1"] by simp
  then have d: "f64_round (1 / 2) = 1 / 2"
    by (simp add: is_f64_def)
  have "f64_round (of_int 500000) = of_int 500000"
    by (rule f64_round_of_int) simp_all
  then have y: "f64_round 500000 = 500000"
    by simp
  have a: "real (unat (timestamp_sec 1.5)) = 1"
    unfolding s by simp
  have b: "(1.5::real) - 1 = 1 / 2" and c: "(1 / 2 :: real) * 1000000 = 500000"
    by simp_all
  have "f64_to_u32 500000 = 500000"
    by (simp add: f64_to_u32_def)
  then show "timestamp_usec 1.5 = 500000"
    unfolding timestamp_usec_def a b d c y .
qed

text \<open>
  The binary64 number nearest to 0.3 lies below 0.3, and its product with 1000000 rounds
  up to 300000.
\<close>

lemma timestamp_usec_rounds:
  "timestamp_usec (5404319552844595 / 18014398509481984) = 300000"
proof -
  let ?t = "5404319552844595 / 18014398509481984 :: real"
  have s: "timestamp_sec ?t = 0"
    by (simp add: timestamp_sec_def f64_to_u32_def)
  have "is_f64 (of_int 5404319552844595 * 2 powi (- 54))"
    by (rule is_f64_dyadic) simp_all
  then have d: "f64_round ?t = ?t"
    by (simp add: is_f64_def power_int_minus_divide)
  have "f64_round (?t * 1000000)
      = of_int (round_half_even (?t * 1000000 / 2 powi (18 - 52))) * 2 powi (18 - 52)"
    by (rule f64_round_in_binade) simp_all
  also have "\<dots> = 300000"
    by (simp add: round_half_even_def power_int_minus_divide)
  finally have y: "f64_round (?t * 1000000) = 300000" .
  have a: "real (unat (timestamp_sec ?t)) = 0"
    by (simp add: s)
  have "f64_to_u32 300000 = 300000"
    by (simp add: f64_to_u32_def)
  then show ?thesis
    unfolding timestamp_usec_def a diff_zero d y .
qed

text \<open>
  The binary64 number nearest to 0.000001 lies below it, and its product with 1000000
  rounds up to 1.
\<close>

lemma timestamp_usec_rounds_to_one:
  "timestamp_usec (4722366482869645 / 4722366482869645213696) = 1"
proof -
  let ?t = "4722366482869645 / 4722366482869645213696 :: real"
  have s: "timestamp_sec ?t = 0"
    by (simp add: timestamp_sec_def f64_to_u32_def)
  have "is_f64 (of_int 4722366482869645 * 2 powi (- 72))"
    by (rule is_f64_dyadic) simp_all
  then have d: "f64_round ?t = ?t"
    by (simp add: is_f64_def power_int_minus_divide)
  have "f64_round (?t * 1000000)
      = of_int (round_half_even (?t * 1000000 / 2 powi (- 1 - 52))) * 2 powi (- 1 - 52)"
    by (rule f64_round_in_binade) (simp_all add: power_int_minus_divide)
  also have "\<dots> = 1"
    by (simp add: round_half_even_def power_int_minus_divide)
  finally have y: "f64_round (?t * 1000000) = 1" .
  have a: "real (unat (timestamp_sec ?t)) = 0"
    by (simp add: s)
  have "f64_to_u32 1 = 1"
    by (simp add: f64_to_u32_def)
  then show ?thesis
    unfolding timestamp_usec_def a diff_zero d y .
qed

section \<open>Lemmas on the encoder\<close>

lemma hash_update_statistics [simp]:
  "interface_index_by_sw_if_index (wbm (update_statistics st i p)) =
   interface_index_by_sw_if_index (wbm st)"
  by (simp add: update_statistics_def Let_def)

lemma length_update_statistics [simp]:
  "length (interfaces (wbm (update_statistics st i p))) = length (interfaces (wbm st))"
  by (simp add: update_statistics_def Let_def)

lemma find_interface_update_statistics [simp]:
  "wireshark_bridge_find_interface (wbm (update_statistics st i p)) =
   wireshark_bridge_find_interface (wbm st)"
  by (rule ext) (simp add: wireshark_bridge_find_interface_def cong: option.case_cong)

lemma is_enabled_update_statistics [simp]:
  "is_enabled (interfaces (wbm (update_statistics st i p)) ! j) =
   is_enabled (interfaces (wbm st) ! j)"
proof (cases "i < length (interfaces (wbm st))")
  case True
  then show ?thesis
    by (cases "i = j") (simp_all add: update_statistics_def Let_def)
next
  case False
  then show ?thesis
    by (simp add: update_statistics_def Let_def list_update_beyond)
qed

lemma enabled_index_update_statistics [simp]:
  "enabled_index (wbm (update_statistics st i p)) = enabled_index (wbm st)"
  by (rule ext) (simp add: enabled_index_def cong: option.case_cong)

lemma hash_send_buffer [simp]:
  "interface_index_by_sw_if_index (wbm (send_buffer ok st b off)) =
   interface_index_by_sw_if_index (wbm st)"
  by (simp add: send_buffer_def)

lemma interfaces_send_buffer [simp]:
  "interfaces (wbm (send_buffer ok st b off)) = interfaces (wbm st)"
  by (simp add: send_buffer_def)

lemma find_interface_send_buffer [simp]:
  "wireshark_bridge_find_interface (wbm (send_buffer ok st b off)) =
   wireshark_bridge_find_interface (wbm st)"
  by (rule ext) (simp add: wireshark_bridge_find_interface_def cong: option.case_cong)

lemma enabled_index_send_buffer [simp]:
  "enabled_index (wbm (send_buffer ok st b off)) = enabled_index (wbm st)"
  by (rule ext) (simp add: enabled_index_def cong: option.case_cong)

lemma flushed_update_statistics [simp]:
  "flushed (update_statistics st i p) = flushed st"
  by (simp add: update_statistics_def Let_def)

lemma offset_check:
  fixes off len :: u32
  assumes "unat off \<le> 65507" and "unat len \<le> 65490"
  shows "unat (off + 17 + len) = unat off + 17 + unat len"
    and "(off + 17 + len > 65507) \<longleftrightarrow> (unat off + 17 + unat len > 65507)"
proof -
  show 1: "unat (off + 17 + len) = unat off + 17 + unat len"
    using assms by (simp add: unat_word_ariths)
  show "(off + 17 + len > 65507) \<longleftrightarrow> (unat off + 17 + unat len > 65507)"
    by (simp add: word_less_nat_alt 1)
qed


lemma length_put_u32 [simp]: "length (put_u32 w) = 4"
  by (simp add: put_u32_def)

lemma length_packet_header [simp]: "length (packet_header p) = 17"
  by (simp add: packet_header_def)

lemma length_packet_frame:
  "well_formed p \<Longrightarrow> length (packet_frame p) = 17 + unat (packet_length p)"
  by (simp add: packet_frame_def well_formed_def)

lemma enabled_index_SomeD:
  "enabled_index m ifx = Some i \<Longrightarrow>
     wireshark_bridge_find_interface m ifx = Some i \<and> is_enabled (interfaces m ! i)"
  by (simp add: enabled_index_def split: option.splits if_splits)

lemma enabled_index_NoneD:
  "enabled_index m ifx = None \<Longrightarrow>
     wireshark_bridge_find_interface m ifx = None \<or>
     (\<exists>i. wireshark_bridge_find_interface m ifx = Some i \<and> \<not> is_enabled (interfaces m ! i))"
  by (simp add: enabled_index_def split: option.splits if_splits)

lemma loop_skip:
  assumes "enabled_index (wbm st) (sw_if_index p) = None"
  shows "send_packets_loop ok (p # ps) st buffer off = send_packets_loop ok ps st buffer off"
  using enabled_index_NoneD [OF assms] by auto

lemma loop_flush:
  assumes "enabled_index (wbm st) (sw_if_index p) = Some i"
    and "unat off \<le> 65507" and "fits_datagram p" and "well_formed p"
    and "unat off + 17 + unat (packet_length p) > 65507"
  shows "send_packets_loop ok (p # ps) st buffer off =
         send_packets_loop ok ps (update_statistics (send_buffer ok st buffer off) i p)
           (packet_frame p) (17 + packet_length p)"
proof -
  have len: "unat (packet_length p) \<le> 65490"
    using assms(3)
    by (simp add: fits_datagram_def WIRESHARK_BRIDGE_PACKET_HEADER_SIZE_def
          WIRESHARK_BRIDGE_MAX_DATAGRAM_SIZE_def)
  have chk: "off + 17 + packet_length p > 65507"
    using offset_check(2) [OF assms(2) len] assms(5) by simp
  show ?thesis
    using enabled_index_SomeD [OF assms(1)] chk len assms(4)
    by (simp add: packet_frame_def well_formed_def WIRESHARK_BRIDGE_PACKET_HEADER_SIZE_def
          WIRESHARK_BRIDGE_MAX_DATAGRAM_SIZE_def)
qed

lemma loop_append:
  assumes "enabled_index (wbm st) (sw_if_index p) = Some i"
    and "unat off \<le> 65507" and "well_formed p"
    and "unat off + 17 + unat (packet_length p) \<le> 65507"
  shows "send_packets_loop ok (p # ps) st buffer off =
         send_packets_loop ok ps (update_statistics st i p)
           (buffer @ packet_frame p) (off + 17 + packet_length p)"
proof -
  have len: "unat (packet_length p) \<le> 65490"
    using assms(4) by simp
  have chk: "\<not> off + 17 + packet_length p > 65507"
    using offset_check(2) [OF assms(2) len] assms(4) by simp
  show ?thesis
    using enabled_index_SomeD [OF assms(1)] chk assms(3,4)
    by (simp add: packet_frame_def well_formed_def WIRESHARK_BRIDGE_PACKET_HEADER_SIZE_def
          WIRESHARK_BRIDGE_MAX_DATAGRAM_SIZE_def)
qed


declare send_packets_loop.simps(2) [simp del]

lemma packet_frame_not_Nil [simp]: "packet_frame p \<noteq> []"
  by (simp add: packet_frame_def packet_header_def put_u32_def)

lemma concat_frames_Nil [simp]: "concat (map packet_frame cur) = [] \<longleftrightarrow> cur = []"
  by (cases cur) simp_all

lemma datagrams_send_buffer:
  assumes "length b = unat off"
  shows "map fst (flushed (send_buffer ok st b off)) =
         map fst (flushed st) @ (if b = [] then [] else [b])"
proof (cases "b = []")
  case True
  then have "off = 0" using assms by (simp add: unat_eq_0)
  then show ?thesis by (simp add: send_buffer_def True)
next
  case False
  then have "0 < off" using assms by (auto simp: word_greater_zero_iff)
  then show ?thesis using assms False by (simp add: send_buffer_def)
qed

lemma relayed_update_statistics [simp]:
  "relayed (wbm (update_statistics st i p)) = relayed (wbm st)"
  by (intro ext) (simp add: relayed_def)

lemma relayed_send_buffer [simp]:
  "relayed (wbm (send_buffer ok st b off)) = relayed (wbm st)"
  by (intro ext) (simp add: relayed_def)

lemma loop_groups:
  assumes "buffer = concat (map packet_frame cur)"
    and "length buffer = unat off" and "unat off \<le> 65507"
    and "\<forall>p \<in> set ps. relayed (wbm st) p \<longrightarrow> fits_datagram p \<and> well_formed p"
  shows "\<exists>st' off' groups cur'.
           send_packets_loop ok ps st buffer off
             = Inr (st', concat (map packet_frame cur'), off')
           \<and> length (concat (map packet_frame cur')) = unat off' \<and> unat off' \<le> 65507
           \<and> map fst (flushed st')
               = map fst (flushed st) @ map (\<lambda>g. concat (map packet_frame g)) groups
           \<and> concat groups @ cur' = cur @ filter (relayed (wbm st)) ps
           \<and> [] \<notin> set groups
           \<and> (\<forall>g \<in> set groups. length (concat (map packet_frame g)) \<le> 65507)"
  using assms
proof (induction ps arbitrary: st buffer off cur)
  case Nil
  show ?case
    by (rule exI [of _ st], rule exI [of _ off], rule exI [of _ "[]"], rule exI [of _ cur])
       (use Nil in simp)
next
  case (Cons p ps)
  show ?case
  proof (cases "enabled_index (wbm st) (sw_if_index p)")
    case None
    have "\<not> relayed (wbm st) p" by (simp add: relayed_def None)
    then show ?thesis
      using Cons.IH [OF Cons.prems(1,2,3), of st] Cons.prems(4)
      by (simp add: loop_skip [OF None])
  next
    case (Some i)
    have rel: "relayed (wbm st) p" by (simp add: relayed_def Some)
    then have fit: "fits_datagram p" and wf: "well_formed p"
      using Cons.prems(4) by simp_all
    have len: "17 + unat (packet_length p) \<le> 65507"
      using fit by (simp add: fits_datagram_def WIRESHARK_BRIDGE_PACKET_HEADER_SIZE_def
          WIRESHARK_BRIDGE_MAX_DATAGRAM_SIZE_def)
    show ?thesis
    proof (cases "unat off + 17 + unat (packet_length p) > 65507")
      case True
      let ?st = "update_statistics (send_buffer ok st buffer off) i p"
      let ?off = "17 + packet_length p"
      let ?G = "if cur = [] then [] else [cur]"
      have off: "unat ?off = 17 + unat (packet_length p)"
        using len by (simp add: unat_word_ariths)
      have rest: "\<forall>q \<in> set ps. relayed (wbm ?st) q \<longrightarrow> fits_datagram q \<and> well_formed q"
        using Cons.prems(4) by simp
      have b: "packet_frame p = concat (map packet_frame [p])" by simp
      have l: "length (packet_frame p) = unat ?off" "unat ?off \<le> 65507"
        using len by (simp_all add: off length_packet_frame [OF wf])
      obtain st' off' groups cur' where
        r: "send_packets_loop ok ps ?st (packet_frame p) ?off
              = Inr (st', concat (map packet_frame cur'), off')"
        and i1: "length (concat (map packet_frame cur')) = unat off'" "unat off' \<le> 65507"
        and i2: "map fst (flushed st')
               = map fst (flushed ?st) @ map (\<lambda>g. concat (map packet_frame g)) groups"
        and i3: "concat groups @ cur' = [p] @ filter (relayed (wbm ?st)) ps"
        and i4: "[] \<notin> set groups"
          "\<forall>g \<in> set groups. length (concat (map packet_frame g)) \<le> 65507"
        using Cons.IH [OF b l rest] by blast
      have f: "map fst (flushed ?st)
          = map fst (flushed st) @ map (\<lambda>g. concat (map packet_frame g)) ?G"
        using datagrams_send_buffer [OF Cons.prems(2), of ok st] Cons.prems(1) by simp
      have g: "\<forall>g \<in> set ?G. length (concat (map packet_frame g)) \<le> 65507"
        using Cons.prems(1,2,3) by simp
      show ?thesis
        apply (rule exI [of _ st'], rule exI [of _ off'])
        apply (rule exI [of _ "?G @ groups"], rule exI [of _ cur'])
        unfolding loop_flush [OF Some Cons.prems(3) fit wf True]
        using r i1 i2 i3 i4 f g rel by simp
    next
      case False
      then have le: "unat off + 17 + unat (packet_length p) \<le> 65507" by simp
      let ?st = "update_statistics st i p"
      let ?off = "off + 17 + packet_length p"
      have off: "unat ?off = unat off + 17 + unat (packet_length p)"
        using le by (intro offset_check(1)) simp_all
      have rest: "\<forall>q \<in> set ps. relayed (wbm ?st) q \<longrightarrow> fits_datagram q \<and> well_formed q"
        using Cons.prems(4) by simp
      have b: "buffer @ packet_frame p = concat (map packet_frame (cur @ [p]))"
        using Cons.prems(1) by simp
      have l: "length (buffer @ packet_frame p) = unat ?off" "unat ?off \<le> 65507"
        using le Cons.prems(2) by (simp_all add: off length_packet_frame [OF wf])
      obtain st' off' groups cur' where
        r: "send_packets_loop ok ps ?st (buffer @ packet_frame p) ?off
              = Inr (st', concat (map packet_frame cur'), off')"
        and i1: "length (concat (map packet_frame cur')) = unat off'" "unat off' \<le> 65507"
        and i2: "map fst (flushed st')
               = map fst (flushed ?st) @ map (\<lambda>g. concat (map packet_frame g)) groups"
        and i3: "concat groups @ cur' = (cur @ [p]) @ filter (relayed (wbm ?st)) ps"
        and i4: "[] \<notin> set groups"
          "\<forall>g \<in> set groups. length (concat (map packet_frame g)) \<le> 65507"
        using Cons.IH [OF b l rest] by blast
      show ?thesis
        apply (rule exI [of _ st'], rule exI [of _ off'])
        apply (rule exI [of _ groups], rule exI [of _ cur'])
        unfolding loop_append [OF Some Cons.prems(3) wf le]
        using r i1 i2 i3 i4 rel by simp
    qed
  qed
qed

lemma single_group:
  assumes "concat gs = [x]" and "[] \<notin> set gs"
  shows "gs = [[x]]"
proof (cases gs)
  case Nil
  then show ?thesis using assms by simp
next
  case (Cons g rest)
  then have g: "g \<noteq> []" and r: "[] \<notin> set rest"
    using assms(2) by auto
  have "g @ concat rest = [x]"
    using assms(1) Cons by simp
  then have "g = [x]" and "concat rest = []"
    using g by (auto simp: append_eq_Cons_conv)
  then have "rest = []"
    using r by (cases rest) auto
  then show ?thesis
    using Cons \<open>g = [x]\<close> by simp
qed

lemma datagrams_within_bound:
  assumes "\<forall>p \<in> set ps. relayed (wbm st) p \<longrightarrow> fits_datagram p \<and> well_formed p"
  shows "\<exists>st' ds. wireshark_bridge_send_packets sendto_ok st ps = Inr st'
           \<and> map fst (flushed st') = map fst (flushed st) @ ds
           \<and> (\<forall>d \<in> set ds. length d \<le> 65507)"
proof -
  obtain st1 off1 groups cur1 where
    loop: "send_packets_loop sendto_ok ps st [] 0
             = Inr (st1, concat (map packet_frame cur1), off1)"
    and len: "length (concat (map packet_frame cur1)) = unat off1" "unat off1 \<le> 65507"
    and dg: "map fst (flushed st1)
               = map fst (flushed st) @ map (\<lambda>g. concat (map packet_frame g)) groups"
    and bound: "\<forall>g \<in> set groups. length (concat (map packet_frame g)) \<le> 65507"
    using loop_groups [of "[]" "[]" 0 ps st sendto_ok] assms by auto
  let ?last = "if cur1 = [] then [] else [concat (map packet_frame cur1)]"
  let ?st = "send_buffer sendto_ok st1 (concat (map packet_frame cur1)) off1"
  have res: "wireshark_bridge_send_packets sendto_ok st ps = Inr ?st"
    by (simp add: wireshark_bridge_send_packets_def loop)
  have d: "map fst (flushed ?st)
      = map fst (flushed st) @ (map (\<lambda>g. concat (map packet_frame g)) groups @ ?last)"
    using datagrams_send_buffer [OF len(1), of sendto_ok st1] dg by simp
  have b: "\<forall>d \<in> set (map (\<lambda>g. concat (map packet_frame g)) groups @ ?last). length d \<le> 65507"
    using bound len by auto
  show ?thesis
    using res d b by blast
qed

lemma byte_of_word:
  "(ucast (drop_bit k w AND 0xFF :: u32) :: u8) = of_nat (unat w div 2 ^ k mod 256)"
proof -
  have ff: "(0xFF :: u32) = mask 8"
    by (simp add: mask_eq_exp_minus_1)
  have "unat w < 2 ^ LENGTH(32)"
    by (rule unsigned_less)
  then have tw: "take_bit 32 (unat w) = unat w"
    by (simp add: take_bit_nat_eq_self)
  have "unat (ucast (drop_bit k w AND mask 8 :: u32) :: u8) = take_bit 8 (drop_bit k (unat w))"
    by (simp only: unsigned_ucast_eq unsigned_and_eq unsigned_drop_bit_eq
          unsigned_take_bit_eq flip: take_bit_eq_mask) (simp add: tw)
  then have "unat (ucast (drop_bit k w AND 0xFF :: u32) :: u8) = unat w div 2 ^ k mod 256"
    unfolding ff by (simp only: take_bit_eq_mod drop_bit_eq_div) simp
  then have "of_nat (unat (ucast (drop_bit k w AND 0xFF :: u32) :: u8)) =
             (of_nat (unat w div 2 ^ k mod 256) :: u8)"
    by (rule arg_cong)
  then show ?thesis
    by simp
qed

lemma put_u32_be32: "put_u32 w = be32 (unat w)"
  using byte_of_word [of 24 w] byte_of_word [of 16 w] byte_of_word [of 8 w] byte_of_word [of 0 w]
  by (simp add: put_u32_def be32_def)

lemma be_arith:
  assumes "(n::nat) < 4294967296"
  shows "(n div 16777216 mod 256) * 16777216 + (n div 65536 mod 256) * 65536
           + (n div 256 mod 256) * 256 + n mod 256 = n"
proof -
  define n1 where "n1 = n div 256"
  define n2 where "n2 = n1 div 256"
  define n3 where "n3 = n2 div 256"
  have d2: "n div 65536 = n2"
    unfolding n2_def n1_def by (simp add: div_mult2_eq)
  have d3: "n div 16777216 = n3"
    unfolding n3_def n2_def n1_def by (simp add: div_mult2_eq)
  have e0: "n = n1 * 256 + n mod 256" unfolding n1_def by simp
  have e1: "n1 = n2 * 256 + n1 mod 256" unfolding n2_def by simp
  have e2: "n2 = n3 * 256 + n2 mod 256" unfolding n3_def by simp
  have "n3 < 256" using assms unfolding d3 [symmetric] by simp
  then have e3: "n3 mod 256 = n3" by simp
  have "n3 * 16777216 + (n2 mod 256) * 65536 + (n1 mod 256) * 256 + n mod 256 = n"
    using e0 e1 e2 by linarith
  then show ?thesis
    by (simp add: d2 d3 e3 n1_def [symmetric])
qed

lemma unat_byte: "unat (of_nat (k mod 256) :: u8) = k mod 256"
  by (simp add: unat_of_nat)

lemma be_value_be32:
  assumes "n < 4294967296"
  shows "be_value (be32 n) = n"
proof -
  have "be_value (be32 n) =
      unat (of_nat (n div 16777216 mod 256) :: u8) * 16777216
      + unat (of_nat (n div 65536 mod 256) :: u8) * 65536
      + unat (of_nat (n div 256 mod 256) :: u8) * 256
      + unat (of_nat (n mod 256) :: u8)"
    unfolding be_value_def be32_def by simp
  also have "\<dots> = n"
    unfolding unat_byte by (rule be_arith [OF assms])
  finally show ?thesis .
qed

lemma length_be32 [simp]: "length (be32 n) = 4"
  by (simp add: be32_def)

lemma packet_frame_wire:
  "well_formed p \<Longrightarrow>
     packet_frame p =
       wire_frame (unat (sw_if_index p)) (unat (timestamp_sec (timestamp p)))
         (unat (timestamp_usec (timestamp p))) (unat (packet_length p)) (direction p)
         (packet_data p)"
  by (simp add: packet_frame_def packet_header_def wire_frame_def put_u32_be32 well_formed_def)

lemma wire_frame_fields:
  assumes "a < 4294967296" and "b < 4294967296" and "c < 4294967296" and "d < 4294967296"
  shows "length (wire_frame a b c d dir payload) = 17 + length payload"
    and "be_value (take 4 (wire_frame a b c d dir payload)) = a"
    and "be_value (take 4 (drop 4 (wire_frame a b c d dir payload))) = b"
    and "be_value (take 4 (drop 8 (wire_frame a b c d dir payload))) = c"
    and "be_value (take 4 (drop 12 (wire_frame a b c d dir payload))) = d"
    and "wire_frame a b c d dir payload ! 16 = dir"
    and "drop 17 (wire_frame a b c d dir payload) = payload"
  using assms by (simp_all add: wire_frame_def be_value_be32 nth_append)

lemma u32_bound: "unat (w :: u32) < 4294967296"
proof -
  have "unat w < 2 ^ LENGTH(32)"
    by (rule unsigned_less)
  then show ?thesis
    by simp
qed

lemma valid_timestamp_example: "valid_timestamp pkt_example"
proof -
  have t: "timestamp pkt_example = 1.5"
    by (simp add: pkt_example_def)
  have "is_f64 (timestamp pkt_example)"
    unfolding t by (rule is_f64_example)
  then show ?thesis
    unfolding valid_timestamp_def by (simp add: t)
qed

lemma packet_frame_example:
  "packet_frame pkt_example = [0,0,0,5, 0,0,0,1, 0,7,161,32, 0,0,0,4, 0, 0xDE,0xAD,0xBE,0xEF]"
proof -
  have t: "timestamp pkt_example = 1.5"
    by (simp add: pkt_example_def)
  have s: "timestamp_sec (timestamp pkt_example) = 1"
    and u: "timestamp_usec (timestamp pkt_example) = 500000"
    unfolding t by (rule timestamp_example)+
  show ?thesis
    unfolding packet_frame_def packet_header_def s u
    by (simp add: pkt_example_def put_u32_def WIRESHARK_BRIDGE_DIRECTION_RX_def)
qed

lemma relayed_example: "relayed (wbm st_connected) pkt_example"
  by (simp add: relayed_def enabled_index_def wireshark_bridge_find_interface_def
        st_connected_def wbm_init_def wireshark_bridge_init_def new_wbi_def pkt_example_def)

section \<open>Lemmas on the counters\<close>

lemma counted_Cons:
  "counted m j rx (p # ps) =
     (if enabled_index m (sw_if_index p) = Some j
         \<and> (direction p = WIRESHARK_BRIDGE_DIRECTION_RX) = rx
      then p # counted m j rx ps else counted m j rx ps)"
  by (simp add: counted_def)

lemma counted_update_statistics [simp]:
  "counted (wbm (update_statistics st i p)) = counted (wbm st)"
  by (intro ext) (simp add: counted_def)

lemma counted_send_buffer [simp]:
  "counted (wbm (send_buffer ok st b off)) = counted (wbm st)"
  by (intro ext) (simp add: counted_def)

lemma total_bytes_Cons [simp]:
  "total_bytes (p # ps) = ucast (packet_length p) + total_bytes ps"
  "total_bytes [] = 0"
  by (simp_all add: total_bytes_def)

lemma add_stats_Nil [simp]: "add_stats w [] [] = w"
  by (simp add: add_stats_def)

lemma find_interface_bound:
  "wireshark_bridge_find_interface m ifx = Some i \<Longrightarrow> i < length (interfaces m)"
  by (simp add: wireshark_bridge_find_interface_def split: option.splits if_splits)

lemma interfaces_update_statistics:
  assumes "i < length (interfaces (wbm st))"
  shows "interfaces (wbm (update_statistics st i p)) ! j =
     add_stats (interfaces (wbm st) ! j)
       (if j = i \<and> direction p = WIRESHARK_BRIDGE_DIRECTION_RX then [p] else [])
       (if j = i \<and> direction p \<noteq> WIRESHARK_BRIDGE_DIRECTION_RX then [p] else [])"
  using assms by (simp add: update_statistics_def Let_def nth_list_update add_stats_def)

lemma add_stats_step:
  assumes "enabled_index m (sw_if_index p) = Some i"
  shows "add_stats
       (add_stats w
         (if j = i \<and> direction p = WIRESHARK_BRIDGE_DIRECTION_RX then [p] else [])
         (if j = i \<and> direction p \<noteq> WIRESHARK_BRIDGE_DIRECTION_RX then [p] else []))
       (counted m j True ps) (counted m j False ps)
     = add_stats w (counted m j True (p # ps)) (counted m j False (p # ps))"
  using assms by (auto simp: add_stats_def counted_Cons)

lemma counted_skip:
  "enabled_index m (sw_if_index p) = None \<Longrightarrow> counted m j rx (p # ps) = counted m j rx ps"
  by (simp add: counted_Cons)

lemma loop_stats:
  assumes "unat off \<le> 65507"
    and "\<forall>p \<in> set ps. relayed (wbm st) p \<longrightarrow> fits_datagram p \<and> well_formed p"
  shows "\<exists>st' b' off'. send_packets_loop ok ps st buffer off = Inr (st', b', off')
           \<and> (\<forall>j. interfaces (wbm st') ! j =
                 add_stats (interfaces (wbm st) ! j)
                   (counted (wbm st) j True ps) (counted (wbm st) j False ps))"
  using assms
proof (induction ps arbitrary: st buffer off)
  case Nil
  then show ?case by (simp add: counted_def)
next
  case (Cons p ps)
  show ?case
  proof (cases "enabled_index (wbm st) (sw_if_index p)")
    case None
    have "\<not> relayed (wbm st) p" by (simp add: relayed_def None)
    then show ?thesis
      using Cons.IH [of off st buffer] Cons.prems
      by (simp add: loop_skip [OF None] counted_skip [OF None])
  next
    case (Some i)
    have rel: "relayed (wbm st) p" by (simp add: relayed_def Some)
    then have fit: "fits_datagram p" and wf: "well_formed p"
      using Cons.prems(2) by simp_all
    have len: "17 + unat (packet_length p) \<le> 65507"
      using fit by (simp add: fits_datagram_def WIRESHARK_BRIDGE_PACKET_HEADER_SIZE_def
          WIRESHARK_BRIDGE_MAX_DATAGRAM_SIZE_def)
    have i: "i < length (interfaces (wbm st))"
      using enabled_index_SomeD [OF Some] find_interface_bound by blast
    show ?thesis
    proof (cases "unat off + 17 + unat (packet_length p) > 65507")
      case True
      let ?st = "update_statistics (send_buffer ok st buffer off) i p"
      let ?off = "17 + packet_length p"
      have off: "unat ?off \<le> 65507"
        using len by (simp add: unat_word_ariths)
      have rest: "\<forall>q \<in> set ps. relayed (wbm ?st) q \<longrightarrow> fits_datagram q \<and> well_formed q"
        using Cons.prems(2) by (simp add: relayed_def)
      have upd: "interfaces (wbm ?st) ! j =
          add_stats (interfaces (wbm st) ! j)
            (if j = i \<and> direction p = WIRESHARK_BRIDGE_DIRECTION_RX then [p] else [])
            (if j = i \<and> direction p \<noteq> WIRESHARK_BRIDGE_DIRECTION_RX then [p] else [])" for j
        using interfaces_update_statistics [of i "send_buffer ok st buffer off" p j] i by simp
      from Cons.IH [OF off rest, of "packet_frame p"]
      show ?thesis
        unfolding loop_flush [OF Some Cons.prems(1) fit wf True]
        by (simp only: upd add_stats_step [OF Some] counted_update_statistics counted_send_buffer)
    next
      case False
      then have le: "unat off + 17 + unat (packet_length p) \<le> 65507" by simp
      let ?st = "update_statistics st i p"
      let ?off = "off + 17 + packet_length p"
      have "unat ?off = unat off + 17 + unat (packet_length p)"
        using le by (intro offset_check(1)) simp_all
      then have off: "unat ?off \<le> 65507"
        using le by simp
      have rest: "\<forall>q \<in> set ps. relayed (wbm ?st) q \<longrightarrow> fits_datagram q \<and> well_formed q"
        using Cons.prems(2) by (simp add: relayed_def)
      have upd: "interfaces (wbm ?st) ! j =
          add_stats (interfaces (wbm st) ! j)
            (if j = i \<and> direction p = WIRESHARK_BRIDGE_DIRECTION_RX then [p] else [])
            (if j = i \<and> direction p \<noteq> WIRESHARK_BRIDGE_DIRECTION_RX then [p] else [])" for j
        using interfaces_update_statistics [of i st p j] i by simp
      from Cons.IH [OF off rest, of "buffer @ packet_frame p"]
      show ?thesis
        unfolding loop_append [OF Some Cons.prems(1) wf le]
        by (simp only: upd add_stats_step [OF Some] counted_update_statistics)
    qed
  qed
qed

lemma counted_example:
  "counted (wbm st_connected) 0 True [pkt_example] = [pkt_example]"
  "counted (wbm st_connected) 0 False [pkt_example] = []"
  by (simp_all add: counted_def enabled_index_def wireshark_bridge_find_interface_def
        pkt_example_def example_defs WIRESHARK_BRIDGE_DIRECTION_RX_def)

section \<open>Lemmas on the administrative operations\<close>

lemma st_connected_reachable:
  "snd (wireshark_bridge_enable_command_fn (libc_example\<lparr> socket_fd := 7 \<rparr>)
          wireshark_bridge_init 5 (Some ''127.0.0.1:9999'')) = st_connected"
  by (simp add: wireshark_bridge_enable_command_fn_def configure_transport_cli_def
        start_sender_thread_def handler_defs example_defs enable_capture_def
        wireshark_bridge_find_interface_def wireshark_bridge_add_interface_def)

lemma st_disconnected_run:
  "run [Capture capture_example, Drain (\<lambda>k. False)] st_connected = Inr st_disconnected"
  by (simp add: st_disconnected_def capture_example_def wireshark_bridge_send_packet_def
        sender_thread_iteration_def wireshark_bridge_send_packets_def
        send_packets_loop.simps(2) wireshark_bridge_find_interface_def example_defs
        send_buffer_def update_statistics_def WIRESHARK_BRIDGE_MAX_QUEUE_SIZE_def
        WIRESHARK_BRIDGE_PACKET_HEADER_SIZE_def WIRESHARK_BRIDGE_MAX_DATAGRAM_SIZE_def)

lemma st_disconnected_fields:
  "\<not> bridge_connected (wbm st_disconnected)"
  "enabled_index (wbm st_disconnected) 5 = Some 0"
  "packets (queue st_disconnected) = []"
  "queue_overflows (queue st_disconnected) = 0"
  by (simp_all add: st_disconnected_def capture_example_def wireshark_bridge_send_packet_def
        sender_thread_iteration_def wireshark_bridge_send_packets_def enabled_index_def
        send_packets_loop.simps(2) wireshark_bridge_find_interface_def example_defs
        send_buffer_def update_statistics_def WIRESHARK_BRIDGE_MAX_QUEUE_SIZE_def
        WIRESHARK_BRIDGE_PACKET_HEADER_SIZE_def WIRESHARK_BRIDGE_MAX_DATAGRAM_SIZE_def)

lemma api_enable_invalid_value_no_thread:
  assumes "vl_api_wireshark_bridge_enable_t_handler env st ifx a = (VNET_API_ERROR_INVALID_VALUE, st')"
  shows "sender_thread_running (wbm st') = sender_thread_running (wbm st)"
    and "queue st' = queue st" and "interfaces (wbm st') = interfaces (wbm st)"
  using assms
  by (auto simp: handler_defs split: if_splits option.splits)

lemma st_idle_eq: "st_idle = st_connected\<lparr> wbm := (wbm st_connected)\<lparr>
     interfaces := [(new_wbi 5)\<lparr> is_enabled := False \<rparr>] \<rparr> \<rparr>"
  by (simp add: st_idle_def wireshark_bridge_disable_command_fn_def Let_def example_defs)

lemma enable_capture_fields [simp]:
  "bridge_connected (wbm (enable_capture st ifx)) = bridge_connected (wbm st)"
  "bridge_socket (wbm (enable_capture st ifx)) = bridge_socket (wbm st)"
  "bridge_addr (wbm (enable_capture st ifx)) = bridge_addr (wbm st)"
  "use_unix_socket (wbm (enable_capture st ifx)) = use_unix_socket (wbm st)"
  "socket_path (wbm (enable_capture st ifx)) = socket_path (wbm st)"
  "sender_thread_running (wbm (enable_capture st ifx)) = sender_thread_running (wbm st)"
  "queue (enable_capture st ifx) = queue st"
  "closed_fds (enable_capture st ifx) = closed_fds st"
  "flushed (enable_capture st ifx) = flushed st"
  by (simp_all add: enable_capture_def wireshark_bridge_add_interface_def Let_def
        split: option.splits)

section \<open>Lemmas on the overflow counter\<close>

lemma queue_send_buffer [simp]: "queue (send_buffer ok st b off) = queue st"
  by (simp add: send_buffer_def)

lemma queue_update_statistics [simp]: "queue (update_statistics st i p) = queue st"
  by (simp add: update_statistics_def Let_def)

lemma loop_queue:
  "send_packets_loop ok ps st buffer off = Inr (st', b', off') \<Longrightarrow> queue st' = queue st"
proof (induction ps arbitrary: st buffer off)
  case Nil
  then show ?case by simp
next
  case (Cons p ps)
  from Cons.prems show ?case
    by (auto simp: send_packets_loop.simps(2) split: option.splits if_splits dest!: Cons.IH)
qed

lemma send_packets_queue:
  "wireshark_bridge_send_packets ok st ps = Inr st' \<Longrightarrow> queue st' = queue st"
  by (auto simp: wireshark_bridge_send_packets_def split: sum.splits dest: loop_queue)

lemma sender_thread_iteration_overflows:
  "sender_thread_iteration ok st = Inr st' \<Longrightarrow>
     queue_overflows (queue st') = queue_overflows (queue st)"
  by (auto simp: sender_thread_iteration_def Let_def split: if_splits dest!: send_packets_queue)

lemma send_capture_overflows:
  "queue_overflows (queue (send_capture st c)) = queue_overflows (queue st)
   \<or> queue_overflows (queue (send_capture st c)) = queue_overflows (queue st) + 1"
  by (cases c) (simp add: wireshark_bridge_send_packet_def Let_def split: option.splits)

lemma api_enable_running_queue:
  "sender_thread_running (wbm st) \<Longrightarrow>
     queue (snd (vl_api_wireshark_bridge_enable_t_handler env st ifx a)) = queue st"
  by (simp add: handler_defs split: option.splits)

lemma api_enable_overflows:
  "queue_overflows (queue (snd (vl_api_wireshark_bridge_enable_t_handler env st ifx a)))
     \<in> {queue_overflows (queue st), 0}"
  by (simp add: handler_defs split: option.splits)

lemma start_sender_thread_queue:
  "sender_thread_running (wbm st) \<Longrightarrow> start_sender_thread env st = (True, st)"
  by (simp add: start_sender_thread_def)

lemma start_sender_thread_overflows:
  "queue_overflows (queue (snd (start_sender_thread env st))) \<in> {queue_overflows (queue st), 0}"
  by (simp add: start_sender_thread_def Let_def init_packet_queue_def close_socket_def)

lemma start_sender_thread_running:
  "start_sender_thread env st = (True, st') \<Longrightarrow> sender_thread_running (wbm st')"
  by (auto simp: start_sender_thread_def Let_def split: if_splits)

lemma configure_transport_cli_queue:
  "sender_thread_running (wbm st) \<Longrightarrow>
     (case configure_transport_cli env st a of
        Inl (msg, st') \<Rightarrow> queue st' = queue st
      | Inr st' \<Rightarrow> queue st' = queue st \<and> sender_thread_running (wbm st'))"
  by (simp add: configure_transport_cli_def Let_def close_existing_socket_def close_socket_def
        start_sender_thread_def split: option.splits)


lemma cli_enable_running_queue:
  assumes "sender_thread_running (wbm st)"
  shows "queue (snd (wireshark_bridge_enable_command_fn env st ifx a)) = queue st"
proof (cases a)
  case None
  then show ?thesis by (simp add: wireshark_bridge_enable_command_fn_def)
next
  case (Some addr)
  show ?thesis
    using configure_transport_cli_queue [OF assms, of env addr]
    by (auto simp: wireshark_bridge_enable_command_fn_def Some start_sender_thread_queue
          split: sum.splits prod.splits bool.splits)
qed

lemma api_enable_queue_init:
  "reaches_queue_init (Api_enable env ifx a) st \<Longrightarrow>
     queue_overflows (queue (snd (vl_api_wireshark_bridge_enable_t_handler env st ifx a))) = 0"
  by (simp add: handler_defs)

lemma api_enable_no_queue_init:
  "\<not> reaches_queue_init (Api_enable env ifx a) st \<Longrightarrow>
     queue (snd (vl_api_wireshark_bridge_enable_t_handler env st ifx a)) = queue st"
  by (auto simp: handler_defs split: option.splits)

lemma cli_enable_queue_init:
  "reaches_queue_init (Cli_enable env ifx a) st \<Longrightarrow>
     queue_overflows (queue (snd (wireshark_bridge_enable_command_fn env st ifx a))) = 0"
  by (auto simp: wireshark_bridge_enable_command_fn_def configure_transport_cli_def
        start_sender_thread_def handler_defs split: option.splits if_splits)

lemma cli_enable_no_queue_init:
  "\<not> reaches_queue_init (Cli_enable env ifx a) st \<Longrightarrow>
     queue (snd (wireshark_bridge_enable_command_fn env st ifx a)) = queue st"
  by (auto simp: wireshark_bridge_enable_command_fn_def configure_transport_cli_def
        start_sender_thread_def handler_defs split: option.splits if_splits)

lemma api_disable_overflows:
  "queue_overflows (queue (snd (vl_api_wireshark_bridge_disable_t_handler st ifx)))
     = queue_overflows (queue st)"
  by (simp add: vl_api_wireshark_bridge_disable_t_handler_def Let_def close_socket_def)

lemma cli_disable_queue:
  "queue (snd (wireshark_bridge_disable_command_fn st ifx)) = queue st"
  by (simp add: wireshark_bridge_disable_command_fn_def Let_def)

lemma exit_overflows:
  "queue_overflows (queue (wireshark_bridge_exit st)) = queue_overflows (queue st)"
  by (simp add: wireshark_bridge_exit_def Let_def close_socket_def)

lemma word_le_succ:
  fixes q :: u32
  assumes "q \<noteq> - 1"
  shows "q \<le> q + 1"
proof -
  have "1 + q \<noteq> 0"
    using assms by (metis add.commute add_eq_0_iff)
  then have "unat (1 + q) = Suc (unat q)"
    by (rule unatSuc)
  then show ?thesis
    by (simp add: word_le_nat_alt add.commute)
qed

lemma run_append:
  "run (xs @ ys) st = (case run xs st of Inl e \<Rightarrow> Inl e | Inr st' \<Rightarrow> run ys st')"
  by (induction xs arbitrary: st) (simp_all split: sum.splits)

lemma run_captures: "run (map Capture cs) st = Inr (capture_all st cs)"
  by (induction cs arbitrary: st) simp_all

lemma run_replicate_Capture:
  "run (replicate n (Capture c)) st = Inr (capture_all st (replicate n c))"
  using run_captures [of "replicate n c" st] by simp

lemma st_enabled_eq:
  "st_enabled = \<lparr> wbm = \<lparr> interfaces = [(new_wbi 5)\<lparr> is_enabled := True \<rparr>],
       interface_index_by_sw_if_index = [5 \<mapsto> 0], bridge_socket = 8,
       bridge_addr = Unix_addr ''/tmp/ws.sock'', bridge_connected = True,
       use_unix_socket = True, socket_path = ''/tmp/ws.sock'', sender_thread_running = True \<rparr>,
     queue = queue_init, closed_fds = [], flushed = [] \<rparr>"
  by (simp add: st_enabled_def handler_defs example_defs enable_capture_def
        wireshark_bridge_find_interface_def wireshark_bridge_add_interface_def)

lemma queue_after_captures:
  assumes "n \<ge> 10000"
  shows "queue (capture_all st_enabled (replicate n capture_example))
     = \<lparr> packets = replicate 10000 (capture_packet capture_example), should_stop = False,
         queue_overflows = of_nat (n - 10000) \<rparr>"
proof -
  have c: "bridge_connected (wbm st_enabled)"
    by (simp add: st_enabled_eq)
  have e: "\<forall>c \<in> set (replicate n capture_example).
      enabled_index (wbm st_enabled) (capture_if c) \<noteq> None"
    by (simp add: enabled_index_def wireshark_bridge_find_interface_def capture_example_def
        st_enabled_eq new_wbi_def)
  have p: "length (packets (queue st_enabled)) \<le> WIRESHARK_BRIDGE_MAX_QUEUE_SIZE"
    by (simp add: st_enabled_eq queue_init_def)
  show ?thesis
    using capture_all_queue [OF c e p] assms
    by (simp add: st_enabled_eq queue_init_def WIRESHARK_BRIDGE_MAX_QUEUE_SIZE_def min_def)
qed

lemma st_overflowed_fields:
  "queue_overflows (queue st_overflowed) = 1"
  "\<not> sender_thread_running (wbm st_overflowed)"
  "\<not> bridge_connected (wbm st_overflowed)"
proof -
  let ?st = "capture_all st_enabled (replicate 10001 capture_example)"
  have q: "queue ?st = \<lparr> packets = replicate 10000 (capture_packet capture_example),
       should_stop = False, queue_overflows = 1 \<rparr>"
    using queue_after_captures [of 10001] by simp
  have w: "wbm ?st = wbm st_enabled"
    by simp
  show "queue_overflows (queue st_overflowed) = 1"
    "\<not> sender_thread_running (wbm st_overflowed)"
    "\<not> bridge_connected (wbm st_overflowed)"
    unfolding st_overflowed_def
    by (simp_all add: vl_api_wireshark_bridge_disable_t_handler_def Let_def
          close_socket_def q w) (simp_all add: st_enabled_eq new_wbi_def)
qed

section \<open>The claims\<close>

text \<open>
  C1. Against an empty queue with overflow counter 0, with the bridge connected and every
  attempt naming an enabled interface, a run of N capture attempts with no drain appends
  exactly the first 10000 of them, in order; the overflow counter, a 32-bit word, ends
  equal to N - 10000 (and reads as that number whenever N - 10000 is below 2^32); and the
  queue never holds more than 10000 records after any prefix of the run.
\<close>

theorem bounded_queue:
  assumes "bridge_connected (wbm st)"
    and "\<forall>c \<in> set cs. enabled_index (wbm st) (capture_if c) \<noteq> None"
    and "packets (queue st) = []" and "queue_overflows (queue st) = 0"
  shows "packets (queue (capture_all st cs))
           = map capture_packet (take WIRESHARK_BRIDGE_MAX_QUEUE_SIZE cs)
       \<and> queue_overflows (queue (capture_all st cs))
           = of_nat (length cs - WIRESHARK_BRIDGE_MAX_QUEUE_SIZE)
       \<and> (length cs - WIRESHARK_BRIDGE_MAX_QUEUE_SIZE < 2 ^ 32 \<longrightarrow>
            unat (queue_overflows (queue (capture_all st cs)))
              = length cs - WIRESHARK_BRIDGE_MAX_QUEUE_SIZE)
       \<and> (\<forall>k. length (packets (queue (capture_all st (take k cs))))
              \<le> WIRESHARK_BRIDGE_MAX_QUEUE_SIZE)"
proof -
  have q: "queue (capture_all st xs) = (queue st)\<lparr>
           packets := map capture_packet (take WIRESHARK_BRIDGE_MAX_QUEUE_SIZE xs),
           queue_overflows := of_nat (length xs - WIRESHARK_BRIDGE_MAX_QUEUE_SIZE) \<rparr>"
    if "set xs \<subseteq> set cs" for xs
  proof -
    have "\<forall>c \<in> set xs. enabled_index (wbm st) (capture_if c) \<noteq> None"
      using assms(2) that by blast
    from capture_all_queue [OF assms(1) this] show ?thesis
      by (simp add: assms(3,4))
  qed
  have 1: "packets (queue (capture_all st cs))
           = map capture_packet (take WIRESHARK_BRIDGE_MAX_QUEUE_SIZE cs)"
    and 2: "queue_overflows (queue (capture_all st cs))
           = of_nat (length cs - WIRESHARK_BRIDGE_MAX_QUEUE_SIZE)"
    by (simp_all add: q)
  have 3: "unat (queue_overflows (queue (capture_all st cs)))
              = length cs - WIRESHARK_BRIDGE_MAX_QUEUE_SIZE"
    if "length cs - WIRESHARK_BRIDGE_MAX_QUEUE_SIZE < 2 ^ 32"
    using that by (simp add: 2 unat_of_nat)
  have 4: "length (packets (queue (capture_all st (take k cs)))) \<le> WIRESHARK_BRIDGE_MAX_QUEUE_SIZE"
    for k
    by (simp add: q [OF set_take_subset])
  show ?thesis
    using 1 2 3 4 by blast
qed

theorem bounded_queue_witness:
  "length (packets (queue (capture_all st_connected (replicate 10005 capture_example)))) = 10000
   \<and> queue_overflows (queue (capture_all st_connected (replicate 10005 capture_example))) = 5
   \<and> unat (queue_overflows (queue (capture_all st_connected (replicate 10005 capture_example)))) = 5"
proof -
  have c: "bridge_connected (wbm st_connected)"
    by (simp add: st_connected_def)
  have e: "\<forall>c \<in> set (replicate 10005 capture_example).
      enabled_index (wbm st_connected) (capture_if c) \<noteq> None"
    by (simp add: enabled_index_def wireshark_bridge_find_interface_def capture_example_def
        st_connected_def wbm_init_def wireshark_bridge_init_def new_wbi_def)
  have p: "packets (queue st_connected) = []" and o: "queue_overflows (queue st_connected) = 0"
    by (simp_all add: st_connected_def wireshark_bridge_init_def queue_init_def)
  show ?thesis
    using bounded_queue [OF c e p o]
    by (simp add: WIRESHARK_BRIDGE_MAX_QUEUE_SIZE_def)
qed

text \<open>
  C2. Whenever every relayed record of a pass fits a datagram, has a payload vector as
  long as its length field says, and carries a binary64 timestamp from 0 up to 2^32, the
  pass ends without error, and the buffers it finished are, in order, the frames of
  consecutive groups of the relayed records: no frame is split or left out. Every frame
  is the 17-byte big-endian header of the wire format followed by exactly the payload:
  the interface id, the whole seconds of the timestamp, its fractional microseconds
  (the fraction times 1000000, as an integer no further than the next one down or up),
  the payload length, and the direction byte at offset 16.
\<close>

theorem frame_encoding:
  assumes "\<forall>p \<in> set ps. relayed (wbm st) p \<longrightarrow>
             fits_datagram p \<and> well_formed p \<and> valid_timestamp p"
  shows "\<exists>st' groups. wireshark_bridge_send_packets sendto_ok st ps = Inr st'
           \<and> map fst (flushed st')
               = map fst (flushed st) @ map (\<lambda>g. concat (map packet_frame g)) groups
           \<and> concat groups = filter (relayed (wbm st)) ps
           \<and> [] \<notin> set groups
           \<and> (\<forall>p \<in> set (filter (relayed (wbm st)) ps). \<exists>usec.
                 packet_frame p
                   = wire_frame (unat (sw_if_index p)) (nat \<lfloor>timestamp p\<rfloor>) usec
                       (unat (packet_length p)) (direction p) (packet_data p)
                 \<and> \<lfloor>fractional_microseconds (timestamp p)\<rfloor> \<le> int usec
                 \<and> int usec \<le> \<lceil>fractional_microseconds (timestamp p)\<rceil>
                 \<and> length (packet_data p) = unat (packet_length p)
                 \<and> length (packet_frame p) = 17 + unat (packet_length p)
                 \<and> be_value (take 4 (packet_frame p)) = unat (sw_if_index p)
                 \<and> be_value (take 4 (drop 4 (packet_frame p))) = nat \<lfloor>timestamp p\<rfloor>
                 \<and> be_value (take 4 (drop 8 (packet_frame p))) = usec
                 \<and> be_value (take 4 (drop 12 (packet_frame p))) = unat (packet_length p)
                 \<and> packet_frame p ! 16 = direction p
                 \<and> drop 17 (packet_frame p) = packet_data p)"
proof -
  have fit: "\<forall>p \<in> set ps. relayed (wbm st) p \<longrightarrow> fits_datagram p \<and> well_formed p"
    using assms by blast
  obtain st1 off1 groups cur1 where
    loop: "send_packets_loop sendto_ok ps st [] 0
             = Inr (st1, concat (map packet_frame cur1), off1)"
    and len: "length (concat (map packet_frame cur1)) = unat off1"
    and dg: "map fst (flushed st1)
               = map fst (flushed st) @ map (\<lambda>g. concat (map packet_frame g)) groups"
    and part: "concat groups @ cur1 = [] @ filter (relayed (wbm st)) ps"
    and ne: "[] \<notin> set groups"
    using loop_groups [of "[]" "[]" 0 ps st sendto_ok] fit by auto
  let ?G = "groups @ (if cur1 = [] then [] else [cur1])"
  let ?st = "send_buffer sendto_ok st1 (concat (map packet_frame cur1)) off1"
  have res: "wireshark_bridge_send_packets sendto_ok st ps = Inr ?st"
    by (simp add: wireshark_bridge_send_packets_def loop)
  have c: "concat ?G = filter (relayed (wbm st)) ps"
    using part by (cases "cur1 = []") simp_all
  have n: "[] \<notin> set ?G"
    using ne by simp
  have d: "map fst (flushed ?st)
      = map fst (flushed st) @ map (\<lambda>g. concat (map packet_frame g)) ?G"
    using datagrams_send_buffer [OF len, of sendto_ok st1] dg by simp
  have fields: "\<exists>usec.
                 packet_frame p
                   = wire_frame (unat (sw_if_index p)) (nat \<lfloor>timestamp p\<rfloor>) usec
                       (unat (packet_length p)) (direction p) (packet_data p)
                 \<and> \<lfloor>fractional_microseconds (timestamp p)\<rfloor> \<le> int usec
                 \<and> int usec \<le> \<lceil>fractional_microseconds (timestamp p)\<rceil>
                 \<and> length (packet_data p) = unat (packet_length p)
                 \<and> length (packet_frame p) = 17 + unat (packet_length p)
                 \<and> be_value (take 4 (packet_frame p)) = unat (sw_if_index p)
                 \<and> be_value (take 4 (drop 4 (packet_frame p))) = nat \<lfloor>timestamp p\<rfloor>
                 \<and> be_value (take 4 (drop 8 (packet_frame p))) = usec
                 \<and> be_value (take 4 (drop 12 (packet_frame p))) = unat (packet_length p)
                 \<and> packet_frame p ! 16 = direction p
                 \<and> drop 17 (packet_frame p) = packet_data p"
    if wf: "well_formed p" and vt: "valid_timestamp p" for p
  proof -
    define usec where "usec = unat (timestamp_usec (timestamp p))"
    have t: "is_f64 (timestamp p)" "0 \<le> timestamp p" "timestamp p < 2 ^ 32"
      using vt by (simp_all add: valid_timestamp_def)
    have sec: "unat (timestamp_sec (timestamp p)) = nat \<lfloor>timestamp p\<rfloor>"
      by (rule timestamp_fields(1) [OF t])
    have lo: "\<lfloor>fractional_microseconds (timestamp p)\<rfloor> \<le> int usec"
      unfolding usec_def by (rule timestamp_fields(2) [OF t])
    have hi: "int usec \<le> \<lceil>fractional_microseconds (timestamp p)\<rceil>"
      unfolding usec_def by (rule timestamp_fields(3) [OF t])
    have f: "packet_frame p
        = wire_frame (unat (sw_if_index p)) (nat \<lfloor>timestamp p\<rfloor>) usec
            (unat (packet_length p)) (direction p) (packet_data p)"
      using packet_frame_wire [OF wf] by (simp add: sec usec_def)
    have b: "unat (sw_if_index p) < 4294967296" "nat \<lfloor>timestamp p\<rfloor> < 4294967296"
      "usec < 4294967296" "unat (packet_length p) < 4294967296"
      using u32_bound [of "sw_if_index p"] u32_bound [of "timestamp_sec (timestamp p)"]
        u32_bound [of "timestamp_usec (timestamp p)"] u32_bound [of "packet_length p"]
      by (simp_all add: sec usec_def)
    have l: "length (packet_data p) = unat (packet_length p)"
      using wf by (simp add: well_formed_def)
    show ?thesis
      using lo hi l wire_frame_fields [OF b, of "direction p" "packet_data p"]
      unfolding f [symmetric] by (intro exI [of _ usec]) (simp add: f)
  qed
  have "\<forall>p \<in> set (filter (relayed (wbm st)) ps). well_formed p \<and> valid_timestamp p"
    using assms by simp
  then show ?thesis
    using res d c n fields by blast
qed

theorem frame_encoding_witness:
  "\<not> isl (wireshark_bridge_send_packets (\<lambda>k. True) st_connected [pkt_example])
   \<and> map fst (flushed (projr
        (wireshark_bridge_send_packets (\<lambda>k. True) st_connected [pkt_example])))
       = [[0,0,0,5, 0,0,0,1, 0,7,161,32, 0,0,0,4, 0, 0xDE,0xAD,0xBE,0xEF]]"
proof -
  have h: "\<forall>p \<in> set [pkt_example].
      relayed (wbm st_connected) p \<longrightarrow> fits_datagram p \<and> well_formed p \<and> valid_timestamp p"
    using valid_timestamp_example
    by (simp add: fits_datagram_def well_formed_def pkt_example_def
          WIRESHARK_BRIDGE_PACKET_HEADER_SIZE_def WIRESHARK_BRIDGE_MAX_DATAGRAM_SIZE_def)
  have s: "flushed st_connected = []"
    by (simp add: st_connected_def wireshark_bridge_init_def)
  obtain st' groups where
    r: "wireshark_bridge_send_packets (\<lambda>k. True) st_connected [pkt_example] = Inr st'"
    and d: "map fst (flushed st')
         = map fst (flushed st_connected) @ map (\<lambda>g. concat (map packet_frame g)) groups"
    and c: "concat groups = filter (relayed (wbm st_connected)) [pkt_example]"
    and n: "[] \<notin> set groups"
    using frame_encoding [OF h, of "\<lambda>k. True"] by blast
  have "groups = [[pkt_example]]"
    using c n by (intro single_group) (simp_all add: relayed_example)
  then show ?thesis
    using r d by (simp add: s packet_frame_example)
qed

text \<open>
  C3 fails on the code. A single record of an enabled interface with 65500 payload bytes
  passes the flush check with an empty buffer and is then written, header and payload,
  into the 65507-byte batch buffer: the stores run past its end. The record gets there
  through the fast path: a capture of 65500 bytes followed by a drain.
\<close>

theorem oversized_record_overruns:
  "wireshark_bridge_send_packets (\<lambda>k. True) st_connected [pkt_oversized] = Inl Buffer_overrun
   \<and> run [Capture (5, replicate 65500 0, 65500, 1.5, WIRESHARK_BRIDGE_DIRECTION_RX),
            Drain (\<lambda>k. True)] st_connected = Inl Buffer_overrun"
  by (simp add: wireshark_bridge_send_packets_def send_packets_loop.simps(2)
        wireshark_bridge_send_packet_def sender_thread_iteration_def
        wireshark_bridge_find_interface_def pkt_oversized_def example_defs send_buffer_def
        WIRESHARK_BRIDGE_MAX_QUEUE_SIZE_def
        WIRESHARK_BRIDGE_PACKET_HEADER_SIZE_def WIRESHARK_BRIDGE_MAX_DATAGRAM_SIZE_def)

text \<open>
  C4 fails on the code, by the same defect. The encoder has no branch that drops an
  oversized record: a pass over an oversized record followed by an ordinary one ends in
  the overrun, where a pass that dropped the first would send the second.
\<close>

theorem oversized_record_not_dropped:
  "wireshark_bridge_send_packets (\<lambda>k. True) st_connected [pkt_oversized, pkt_example]
     = Inl Buffer_overrun
   \<and> (\<exists>st'. wireshark_bridge_send_packets (\<lambda>k. True) st_connected [pkt_example] = Inr st'
         \<and> map snd (flushed st') = [Sent_ok])"
  by (simp add: wireshark_bridge_send_packets_def send_packets_loop.simps(2)
        wireshark_bridge_find_interface_def pkt_oversized_def pkt_example_def example_defs
        send_buffer_def update_statistics_def
        WIRESHARK_BRIDGE_PACKET_HEADER_SIZE_def WIRESHARK_BRIDGE_MAX_DATAGRAM_SIZE_def)

text \<open>
  C5, as the code has it. Every record of a registered, enabled interface is counted
  exactly once, in the counters of its direction, at the moment it is placed into the
  batch buffer: after a pass the four counters of a registry slot have grown by the
  number and the total length of the slot's records in that pass, whatever the send calls
  of the pass return. Records of unknown or disabled interfaces are not counted.
\<close>

theorem counters_follow_buffering:
  assumes "\<forall>p \<in> set ps. relayed (wbm st) p \<longrightarrow> fits_datagram p \<and> well_formed p"
  shows "\<exists>st'. wireshark_bridge_send_packets sendto_ok st ps = Inr st'
     \<and> packets_sent_rx (interfaces (wbm st') ! j)
         = packets_sent_rx (interfaces (wbm st) ! j) + of_nat (length (counted (wbm st) j True ps))
     \<and> bytes_sent_rx (interfaces (wbm st') ! j)
         = bytes_sent_rx (interfaces (wbm st) ! j) + total_bytes (counted (wbm st) j True ps)
     \<and> packets_sent_tx (interfaces (wbm st') ! j)
         = packets_sent_tx (interfaces (wbm st) ! j) + of_nat (length (counted (wbm st) j False ps))
     \<and> bytes_sent_tx (interfaces (wbm st') ! j)
         = bytes_sent_tx (interfaces (wbm st) ! j) + total_bytes (counted (wbm st) j False ps)"
proof -
  obtain st1 b1 off1 where
    loop: "send_packets_loop sendto_ok ps st [] 0 = Inr (st1, b1, off1)"
    and stats: "interfaces (wbm st1) ! j =
                 add_stats (interfaces (wbm st) ! j)
                   (counted (wbm st) j True ps) (counted (wbm st) j False ps)"
    using loop_stats [of 0 ps st sendto_ok "[]"] assms by auto
  have res: "wireshark_bridge_send_packets sendto_ok st ps = Inr (send_buffer sendto_ok st1 b1 off1)"
    by (simp add: wireshark_bridge_send_packets_def loop)
  show ?thesis
    by (simp add: res stats add_stats_def)
qed

theorem counters_follow_buffering_witness:
  "\<not> isl (wireshark_bridge_send_packets (\<lambda>k. True) st_connected [pkt_example])
   \<and> packets_sent_rx (interfaces (wbm (projr
        (wireshark_bridge_send_packets (\<lambda>k. True) st_connected [pkt_example]))) ! 0) = 1
   \<and> bytes_sent_rx (interfaces (wbm (projr
        (wireshark_bridge_send_packets (\<lambda>k. True) st_connected [pkt_example]))) ! 0) = 4
   \<and> packets_sent_tx (interfaces (wbm (projr
        (wireshark_bridge_send_packets (\<lambda>k. True) st_connected [pkt_example]))) ! 0) = 0
   \<and> bytes_sent_tx (interfaces (wbm (projr
        (wireshark_bridge_send_packets (\<lambda>k. True) st_connected [pkt_example]))) ! 0) = 0"
proof -
  have h: "\<forall>p \<in> set [pkt_example].
      relayed (wbm st_connected) p \<longrightarrow> fits_datagram p \<and> well_formed p"
    by (simp add: fits_datagram_def well_formed_def pkt_example_def
          WIRESHARK_BRIDGE_PACKET_HEADER_SIZE_def WIRESHARK_BRIDGE_MAX_DATAGRAM_SIZE_def)
  have z: "interfaces (wbm st_connected) ! 0 = (new_wbi 5)\<lparr> is_enabled := True \<rparr>"
    by (simp add: st_connected_def)
  have l: "packet_length pkt_example = 4"
    by (simp add: pkt_example_def)
  show ?thesis
    using counters_follow_buffering [OF h, of "\<lambda>k. True" 0]
    by (auto simp: counted_example z l new_wbi_def)
qed

text \<open>
  C5 as stated fails: when the only send of a pass fails, the record in that datagram
  has been counted all the same.
\<close>

theorem counted_before_failed_send_counterexample:
  "\<not> isl (wireshark_bridge_send_packets (\<lambda>k. False) st_connected [pkt_example])
   \<and> map snd (flushed (projr
        (wireshark_bridge_send_packets (\<lambda>k. False) st_connected [pkt_example]))) = [Send_failed]
   \<and> packets_sent_rx (interfaces (wbm st_connected) ! 0) = 0
   \<and> packets_sent_rx (interfaces (wbm (projr
        (wireshark_bridge_send_packets (\<lambda>k. False) st_connected [pkt_example]))) ! 0) = 1
   \<and> bytes_sent_rx (interfaces (wbm (projr
        (wireshark_bridge_send_packets (\<lambda>k. False) st_connected [pkt_example]))) ! 0) = 4"
  by (simp add: wireshark_bridge_send_packets_def send_packets_loop.simps(2)
        wireshark_bridge_find_interface_def pkt_example_def example_defs
        send_buffer_def update_statistics_def WIRESHARK_BRIDGE_DIRECTION_RX_def
        WIRESHARK_BRIDGE_PACKET_HEADER_SIZE_def WIRESHARK_BRIDGE_MAX_DATAGRAM_SIZE_def)

text \<open>
  C6, as the code has it. An enable call that reaches a block which initialises the packet
  queue for a new sender thread leaves the overflow counter at 0, whatever it was. Every
  other operation keeps the counter as it is, except a capture, which may add one to it;
  so no other operation lowers the counter as long as the 32-bit counter is below its
  maximum. An enable call made through the binary API for an ip:port endpoint, and an
  enable call that fails before the block, do not reach it and keep the counter even
  when the sender thread is not running.
\<close>

theorem overflow_counter_reset_exactly_at_queue_init:
  assumes "step op st = Inr st'"
  shows "(reaches_queue_init op st \<longrightarrow> queue_overflows (queue st') = 0)
       \<and> (\<not> reaches_queue_init op st \<longrightarrow>
            queue_overflows (queue st') = queue_overflows (queue st)
            \<or> (\<exists>c. op = Capture c)
              \<and> queue_overflows (queue st') = queue_overflows (queue st) + 1)
       \<and> (\<not> reaches_queue_init op st \<and> queue_overflows (queue st) \<noteq> - 1 \<longrightarrow>
            queue_overflows (queue st) \<le> queue_overflows (queue st'))"
proof (cases op)
  case (Capture c)
  have e: "\<exists>c. op = Capture c"
    using Capture by blast
  have r: "\<not> reaches_queue_init op st"
    using Capture by simp
  have s: "st' = send_capture st c"
    using assms Capture by simp
  have k: "queue_overflows (queue st') = queue_overflows (queue st)
      \<or> queue_overflows (queue st') = queue_overflows (queue st) + 1"
    unfolding s by (rule send_capture_overflows)
  have m: "queue_overflows (queue st) \<noteq> - 1 \<longrightarrow>
      queue_overflows (queue st) \<le> queue_overflows (queue st')"
    using k word_le_succ [of "queue_overflows (queue st)"] by auto
  show ?thesis
    using e r k m by blast
next
  case (Api_enable env ifx a)
  then show ?thesis
    using assms api_enable_queue_init [of env ifx a st] api_enable_no_queue_init [of env ifx a st]
    by (cases "reaches_queue_init (Api_enable env ifx a) st") auto
next
  case (Cli_enable env ifx a)
  then show ?thesis
    using assms cli_enable_queue_init [of env ifx a st] cli_enable_no_queue_init [of env ifx a st]
    by (cases "reaches_queue_init (Cli_enable env ifx a) st") auto
next
  case (Api_disable ifx)
  then show ?thesis
    using assms api_disable_overflows [of st ifx] by auto
next
  case (Cli_disable ifx)
  then show ?thesis
    using assms cli_disable_queue [of st ifx] by auto
next
  case (Drain ok)
  then show ?thesis
    using assms sender_thread_iteration_overflows [of ok st st'] by auto
next
  case Shutdown
  then show ?thesis
    using assms exit_overflows [of st] by auto
qed

theorem overflow_counter_reset_exactly_at_queue_init_witness:
  "\<not> reaches_queue_init (Capture capture_example) st_full
   \<and> queue_overflows (queue st_full) = 0
   \<and> queue_overflows (queue (send_capture st_full capture_example)) = 1
   \<and> \<not> sender_thread_running (wbm st_overflowed)
   \<and> queue_overflows (queue st_overflowed) = 1
   \<and> \<not> reaches_queue_init (Api_enable libc_example 5 ''127.0.0.1:9999'') st_overflowed
   \<and> queue_overflows (queue (snd (vl_api_wireshark_bridge_enable_t_handler libc_example
         st_overflowed 5 ''127.0.0.1:9999''))) = 1
   \<and> reaches_queue_init (Cli_enable libc_example 5 (Some ''127.0.0.1:9999'')) st_overflowed
   \<and> queue_overflows (queue (snd (wireshark_bridge_enable_command_fn libc_example
         st_overflowed 5 (Some ''127.0.0.1:9999'')))) = 0"
proof -
  have q: "queue st_full = \<lparr> packets = replicate 10000 (capture_packet capture_example),
       should_stop = False, queue_overflows = 0 \<rparr>"
    using queue_after_captures [of 10000] by (simp add: st_full_def)
  have w: "wbm st_full = wbm st_enabled"
    by (simp add: st_full_def)
  have s1: "step (Capture capture_example) st_full = Inr (send_capture st_full capture_example)"
    and n1: "\<not> reaches_queue_init (Capture capture_example) st_full"
    and o1: "queue_overflows (queue st_full) = 0"
    by (simp_all add: q)
  have i1: "queue_overflows (queue (send_capture st_full capture_example)) = 1"
    by (simp add: capture_example_def wireshark_bridge_send_packet_def q w st_enabled_eq
          wireshark_bridge_find_interface_def WIRESHARK_BRIDGE_MAX_QUEUE_SIZE_def)
  have s2: "step (Api_enable libc_example 5 ''127.0.0.1:9999'') st_overflowed
      = Inr (snd (vl_api_wireshark_bridge_enable_t_handler libc_example st_overflowed 5
                    ''127.0.0.1:9999''))"
    and n2: "\<not> reaches_queue_init (Api_enable libc_example 5 ''127.0.0.1:9999'') st_overflowed"
    by (simp_all add: is_unix_path_def)
  have s3: "step (Cli_enable libc_example 5 (Some ''127.0.0.1:9999'')) st_overflowed
      = Inr (snd (wireshark_bridge_enable_command_fn libc_example st_overflowed 5
                    (Some ''127.0.0.1:9999'')))"
    and r3: "reaches_queue_init (Cli_enable libc_example 5 (Some ''127.0.0.1:9999''))
               st_overflowed"
    using st_overflowed_fields(2)
    by (simp_all add: is_unix_path_def libc_example_def port_text_of_def ip_address_of_def)
  show ?thesis
    using overflow_counter_reset_exactly_at_queue_init [OF s1]
      overflow_counter_reset_exactly_at_queue_init [OF s2]
      overflow_counter_reset_exactly_at_queue_init [OF s3]
      n1 o1 i1 n2 r3 st_overflowed_fields(1,2)
    by simp
qed

text \<open>
  C6 as stated fails: after one overflow the counter is 1; a disable call that stops the
  sender thread followed by an enable call brings it back to 0.
\<close>

theorem overflow_counter_reset_counterexample:
  "run (Api_enable libc_example 5 ''/tmp/ws.sock''
          # map Capture (replicate 10001 capture_example) @ [Api_disable 5])
       wireshark_bridge_init = Inr st_overflowed
   \<and> queue_overflows (queue st_overflowed) = 1
   \<and> step (Api_enable libc_example 5 ''/tmp/ws.sock'') st_overflowed
       = Inr (snd (vl_api_wireshark_bridge_enable_t_handler libc_example st_overflowed 5
                     ''/tmp/ws.sock''))
   \<and> queue_overflows (queue (snd (vl_api_wireshark_bridge_enable_t_handler libc_example
         st_overflowed 5 ''/tmp/ws.sock''))) = 0"
proof -
  have r: "run (Api_enable libc_example 5 ''/tmp/ws.sock''
          # map Capture (replicate 10001 capture_example) @ [Api_disable 5])
       wireshark_bridge_init = Inr st_overflowed"
    by (simp add: run_append run_replicate_Capture st_enabled_def [symmetric] st_overflowed_def)
  have z: "queue_overflows (queue (snd (vl_api_wireshark_bridge_enable_t_handler libc_example
         st_overflowed 5 ''/tmp/ws.sock''))) = 0"
    using st_overflowed_fields(2,3)
    by (simp add: handler_defs libc_example_def)
  show ?thesis
    using r z st_overflowed_fields(1) by simp
qed

text \<open>
  C7, as the code has it. An attempt made while the bridge is not connected returns at the
  first check and leaves the whole state as it was: the queue is not touched and the
  overflow counter is not incremented. The counter moves only when the queue is full.
\<close>

theorem not_connected_no_count:
  assumes "\<not> bridge_connected (wbm st)"
  shows "wireshark_bridge_send_packet st ifx data len ts dir = st"
  using assms by (simp add: wireshark_bridge_send_packet_def)

theorem not_connected_no_count_witness:
  "\<not> bridge_connected (wbm st_disconnected)
   \<and> enabled_index (wbm st_disconnected) 5 = Some 0
   \<and> wireshark_bridge_send_packet st_disconnected 5 [0xDE, 0xAD, 0xBE, 0xEF] 4 1.5 0 = st_disconnected"
  using not_connected_no_count [of st_disconnected 5 "[0xDE, 0xAD, 0xBE, 0xEF]" 4 "1.5" 0]
    st_disconnected_fields
  by simp

text \<open>
  C7 as stated fails: in a disconnected state with interface 5 enabled, an attempt does
  not add one to the overflow counter.
\<close>

theorem not_connected_counterexample:
  "\<not> bridge_connected (wbm st_disconnected)
   \<and> enabled_index (wbm st_disconnected) 5 = Some 0
   \<and> queue_overflows (queue (wireshark_bridge_send_packet st_disconnected 5 [0xDE, 0xAD, 0xBE, 0xEF] 4 1.5 0))
       \<noteq> queue_overflows (queue st_disconnected) + 1"
  by (simp add: wireshark_bridge_send_packet_def st_disconnected_fields)

text \<open>
  C8 fails on the code. An enable call through the binary API with a valid port and an
  address that \<^verbatim>\<open>inet_pton\<close> rejects returns \<^verbatim>\<open>INVALID_VALUE\<close> after it has created a
  socket and set the connected flag; it closes the socket and leaves the flag set, where
  the command-line handler clears it. A call with a path of 109 characters returns
  \<^verbatim>\<open>INVALID_VALUE\<close> after it has switched the socket-type flag. A port out of range
  is refused before anything but that flag is written, so in the initial state such a
  call changes nothing.
\<close>

theorem api_enable_config_error_mutates:
  "fst (vl_api_wireshark_bridge_enable_t_handler libc_example wireshark_bridge_init 5
          ''999.999.999.999:9999'') = VNET_API_ERROR_INVALID_VALUE
   \<and> \<not> bridge_connected (wbm wireshark_bridge_init)
   \<and> bridge_connected (wbm (snd (vl_api_wireshark_bridge_enable_t_handler libc_example
         wireshark_bridge_init 5 ''999.999.999.999:9999'')))
   \<and> bridge_socket (wbm (snd (vl_api_wireshark_bridge_enable_t_handler libc_example
         wireshark_bridge_init 5 ''999.999.999.999:9999''))) = 8
   \<and> closed_fds (snd (vl_api_wireshark_bridge_enable_t_handler libc_example
         wireshark_bridge_init 5 ''999.999.999.999:9999'')) = [8]
   \<and> \<not> bridge_connected (wbm (snd (wireshark_bridge_enable_command_fn libc_example
         wireshark_bridge_init 5 (Some ''999.999.999.999:9999''))))
   \<and> fst (vl_api_wireshark_bridge_enable_t_handler libc_example wireshark_bridge_init 5
          (CHR ''/'' # replicate 108 CHR ''a'')) = VNET_API_ERROR_INVALID_VALUE
   \<and> \<not> use_unix_socket (wbm wireshark_bridge_init)
   \<and> use_unix_socket (wbm (snd (vl_api_wireshark_bridge_enable_t_handler libc_example
         wireshark_bridge_init 5 (CHR ''/'' # replicate 108 CHR ''a''))))
   \<and> vl_api_wireshark_bridge_enable_t_handler libc_example wireshark_bridge_init 5
         ''999.999.999.999:70000'' = (VNET_API_ERROR_INVALID_VALUE, wireshark_bridge_init)"
  by (simp add: handler_defs example_defs wireshark_bridge_enable_command_fn_def
        configure_transport_cli_def)




text \<open>
  C10. The disable handler of the binary API returns 0 for every interface id, registered
  or not. If after its update no registered interface is enabled and the transport is
  connected, it stops the sender thread (raising \<^verbatim>\<open>should_stop\<close> and joining it when it
  runs), closes the socket and clears the connected flag; so a call naming an unknown id
  tears the transport down when no interface is enabled.
\<close>

theorem api_disable_teardown:
  "fst (vl_api_wireshark_bridge_disable_t_handler st ifx) = RV_OK
   \<and> (list_all (\<lambda>w. \<not> is_enabled w)
         (interfaces (wbm (snd (vl_api_wireshark_bridge_disable_t_handler st ifx))))
        \<and> bridge_connected (wbm st) \<longrightarrow>
        \<not> sender_thread_running (wbm (snd (vl_api_wireshark_bridge_disable_t_handler st ifx)))
        \<and> \<not> bridge_connected (wbm (snd (vl_api_wireshark_bridge_disable_t_handler st ifx)))
        \<and> closed_fds (snd (vl_api_wireshark_bridge_disable_t_handler st ifx))
            = closed_fds st @ [bridge_socket (wbm st)]
        \<and> (sender_thread_running (wbm st) \<longrightarrow>
             should_stop (queue (snd (vl_api_wireshark_bridge_disable_t_handler st ifx)))))"
proof -
  let ?ifs = "disable_first ifx (interfaces (wbm st))"
  have ifs: "interfaces (wbm (snd (vl_api_wireshark_bridge_disable_t_handler st ifx))) = ?ifs"
    by (simp add: vl_api_wireshark_bridge_disable_t_handler_def Let_def close_socket_def)
  have rv: "fst (vl_api_wireshark_bridge_disable_t_handler st ifx) = RV_OK"
    by (simp add: vl_api_wireshark_bridge_disable_t_handler_def Let_def)
  show ?thesis
  proof (cases "list_all (\<lambda>w. \<not> is_enabled w) ?ifs \<and> bridge_connected (wbm st)")
    case True
    then show ?thesis
      by (simp add: vl_api_wireshark_bridge_disable_t_handler_def Let_def close_socket_def)
  next
    case False
    then show ?thesis
      using rv by (auto simp: ifs)
  qed
qed

theorem api_disable_teardown_witness:
  "wireshark_bridge_find_interface (wbm st_idle) 99 = None
   \<and> bridge_connected (wbm st_idle) \<and> sender_thread_running (wbm st_idle)
   \<and> fst (vl_api_wireshark_bridge_disable_t_handler st_idle 99) = RV_OK
   \<and> \<not> sender_thread_running (wbm (snd (vl_api_wireshark_bridge_disable_t_handler st_idle 99)))
   \<and> \<not> bridge_connected (wbm (snd (vl_api_wireshark_bridge_disable_t_handler st_idle 99)))
   \<and> closed_fds (snd (vl_api_wireshark_bridge_disable_t_handler st_idle 99)) = [7]
   \<and> should_stop (queue (snd (vl_api_wireshark_bridge_disable_t_handler st_idle 99)))"
proof -
  have a: "list_all (\<lambda>w. \<not> is_enabled w)
         (interfaces (wbm (snd (vl_api_wireshark_bridge_disable_t_handler st_idle 99))))"
    by (simp add: vl_api_wireshark_bridge_disable_t_handler_def Let_def st_idle_eq example_defs
          close_socket_def)
  have b: "bridge_connected (wbm st_idle)" "sender_thread_running (wbm st_idle)"
    "closed_fds st_idle = []" "bridge_socket (wbm st_idle) = 7"
    "wireshark_bridge_find_interface (wbm st_idle) 99 = None"
    by (simp_all add: st_idle_eq example_defs wireshark_bridge_find_interface_def)
  show ?thesis
    using api_disable_teardown [of st_idle 99] a b by simp
qed

end
